theory Spec2Isabelle
  imports Main "HOL-Library.Word" "HOL-Library.Multiset"
begin

chapter \<open>Budgeteer notifications: \<^verbatim>\<open>static/js/popup.js\<close>\<close>

text \<open>
  A shallow embedding of the notification helper of Budgeteer. The script defines the
  namespace object \<^verbatim>\<open>window.BudgeteerNotifications\<close> with four entry points that show a
  Bootstrap toast, and a \<^verbatim>\<open>DOMContentLoaded\<close> handler that turns the hidden flash
  messages of the page into toasts. Both work on the page by side effect, so the model
  passes the window explicitly: the document as a forest of nodes, the nodes that were
  removed but are still referenced, the host environment, and the namespace object.
  A call returns the next window or the error it threw.
\<close>

section \<open>JavaScript strings\<close>

text \<open>
  A JavaScript string is a sequence of UTF-16 code units. The notification glyphs of
  \<^verbatim>\<open>popup.js\<close> lie outside ASCII, and \<^verbatim>\<open>String.prototype.trim\<close> removes several
  non-ASCII white-space characters, so strings are lists of 16-bit words. \<open>lit\<close> embeds
  an ASCII literal of the source.
\<close>

type_synonym jsstring = "16 word list"

definition lit :: "string \<Rightarrow> jsstring" where
  "lit s = map of_char s"

text \<open>
  ECMAScript \<open>WhiteSpace\<close> and \<open>LineTerminator\<close> code points, the ones
  \<^verbatim>\<open>trim()\<close> strips from both ends.
\<close>

definition isWhiteSpace :: "16 word \<Rightarrow> bool" where
  "isWhiteSpace c \<longleftrightarrow>
     c = 0x09 \<or> c = 0x0A \<or> c = 0x0B \<or> c = 0x0C \<or> c = 0x0D \<or> c = 0x20 \<or> c = 0xA0 \<or>
     c = 0x1680 \<or> (0x2000 \<le> c \<and> c \<le> 0x200A) \<or> c = 0x2028 \<or> c = 0x2029 \<or>
     c = 0x202F \<or> c = 0x205F \<or> c = 0x3000 \<or> c = 0xFEFF"

definition trim :: "jsstring \<Rightarrow> jsstring" where
  "trim s = rev (dropWhile isWhiteSpace (rev (dropWhile isWhiteSpace s)))"

text \<open>\<^verbatim>\<open>s.charAt(0)\<close> is the empty string when \<open>s\<close> is empty; \<^verbatim>\<open>s.slice(1)\<close> drops one unit.\<close>

definition charAt0 :: "jsstring \<Rightarrow> jsstring" where
  "charAt0 s = take 1 s"

definition slice1 :: "jsstring \<Rightarrow> jsstring" where
  "slice1 s = drop 1 s"

text \<open>
  \<^verbatim>\<open>toUpperCase()\<close> on the ASCII letters. The source applies it to the first letter of
  one of the four category names only, all of them ASCII; other code units are left
  unchanged here.
\<close>

definition toUpperCase :: "jsstring \<Rightarrow> jsstring" where
  "toUpperCase s = map (\<lambda>c. if 0x61 \<le> c \<and> c \<le> 0x7A then c - 0x20 else c) s"

section \<open>The page: nodes, document order, class lists\<close>

text \<open>
  An element carries an identity (JavaScript compares nodes by reference), its tag
  name, the \<^verbatim>\<open>className\<close> string (the \<^verbatim>\<open>class\<close> attribute), the other attributes and
  \<^verbatim>\<open>style.zIndex\<close>. A node is a text node or an element with its child nodes.
\<close>

record element =
  nid :: nat
  localName :: jsstring
  className :: jsstring
  attributes :: "(jsstring \<times> jsstring) list"
  style_zIndex :: jsstring

datatype node = Text jsstring | Element element "node list"

text \<open>The elements of a forest in document order (preorder).\<close>

fun elems :: "node list \<Rightarrow> element list" where
  "elems [] = []"
| "elems (Text s # ns) = elems ns"
| "elems (Element e cs # ns) = e # elems cs @ elems ns"

text \<open>Dereferencing: the element with a given identity and its child nodes.\<close>

fun find_node :: "nat \<Rightarrow> node list \<Rightarrow> (element \<times> node list) option" where
  "find_node i [] = None"
| "find_node i (Text s # ns) = find_node i ns"
| "find_node i (Element e cs # ns) =
     (if nid e = i then Some (e, cs)
      else case find_node i cs of Some r \<Rightarrow> Some r | None \<Rightarrow> find_node i ns)"

text \<open>\<open>del i\<close> takes the element \<open>i\<close>, with its subtree, out of its parent's child list.\<close>

fun del :: "nat \<Rightarrow> node list \<Rightarrow> node list" where
  "del i [] = []"
| "del i (Text s # ns) = Text s # del i ns"
| "del i (Element e cs # ns) =
     (if nid e = i then del i ns else Element e (del i cs) # del i ns)"

text \<open>\<open>append_child p c\<close> makes \<open>c\<close> the last child of the element \<open>p\<close>.\<close>

fun append_child :: "nat \<Rightarrow> node \<Rightarrow> node list \<Rightarrow> node list" where
  "append_child p c [] = []"
| "append_child p c (Text s # ns) = Text s # append_child p c ns"
| "append_child p c (Element e cs # ns) =
     (if nid e = p then Element e (cs @ [c]) # ns
      else Element e (append_child p c cs) # append_child p c ns)"

text \<open>
  \<^verbatim>\<open>textContent\<close> of a list of child nodes: the text of the descendants in document
  order.
\<close>

fun text_of :: "node list \<Rightarrow> jsstring" where
  "text_of [] = []"
| "text_of (Text s # ns) = s @ text_of ns"
| "text_of (Element e cs # ns) = text_of cs @ text_of ns"

text \<open>
  The nodes an HTML parser returns have no identity yet. \<open>number k\<close> gives the elements
  of a forest the identities \<open>k\<close>, \<open>k + 1\<close>, ... in document order.
\<close>

fun number :: "nat \<Rightarrow> node list \<Rightarrow> node list" where
  "number k [] = []"
| "number k (Text s # ns) = Text s # number k ns"
| "number k (Element e cs # ns) =
     Element (e\<lparr>nid := k\<rparr>) (number (Suc k) cs) # number (Suc k + length (elems cs)) ns"

text \<open>
  \<^verbatim>\<open>classList\<close>: the class attribute split at ASCII white space (tab, line feed, form
  feed, carriage return, space).
\<close>

definition isAsciiWhitespace :: "16 word \<Rightarrow> bool" where
  "isAsciiWhitespace c \<longleftrightarrow> c = 0x09 \<or> c = 0x0A \<or> c = 0x0C \<or> c = 0x0D \<or> c = 0x20"

fun tokens :: "jsstring \<Rightarrow> jsstring \<Rightarrow> jsstring list" where
  "tokens cur [] = (if cur = [] then [] else [cur])"
| "tokens cur (c # cs) =
     (if isAsciiWhitespace c then (if cur = [] then tokens [] cs else cur # tokens [] cs)
      else tokens (cur @ [c]) cs)"

definition classList :: "element \<Rightarrow> jsstring list" where
  "classList e = tokens [] (className e)"

definition contains :: "element \<Rightarrow> jsstring \<Rightarrow> bool" where
  "contains e c \<longleftrightarrow> c \<in> set (classList e)"

text \<open>
  A compound class selector such as \<^verbatim>\<open>.alert.d-none\<close> matches an element that has every
  class. Class names are compared exactly, as in a standards-mode document.
\<close>

definition matches :: "jsstring list \<Rightarrow> element \<Rightarrow> bool" where
  "matches sel e \<longleftrightarrow> list_all (contains e) sel"


section \<open>Markup assigned to \<^verbatim>\<open>innerHTML\<close>\<close>

text \<open>
  Assigning a string to \<^verbatim>\<open>innerHTML\<close> replaces the children of the element by what the
  browser's HTML fragment parser makes of the string. The parser belongs to the host, so
  the window carries it as a function from strings to forests (below). What is known
  about it is the HTML standard; \<open>parse_simple\<close> is that algorithm for a \<^verbatim>\<open>div\<close> context,
  written out for the markup on which it needs no error recovery and no special cases,
  and undefined (\<open>None\<close>) on everything else:

  \<^item> text is any code unit except \<^verbatim>\<open><\<close>, \<^verbatim>\<open>&\<close>, carriage return and NUL (no character
    references, no newline normalisation);
  \<^item> a start tag is \<^verbatim>\<open><name\<close>, attributes of the form \<^verbatim>\<open>name="value"\<close> separated by
    white space, \<^verbatim>\<open>>\<close>; names are in lower case; an attribute name occurs once and is
    not \<^verbatim>\<open>style\<close>; a value has no \<^verbatim>\<open>&\<close>, carriage return or NUL;
  \<^item> the elements are \<^verbatim>\<open>div\<close>, \<^verbatim>\<open>span\<close>, \<^verbatim>\<open>b\<close>, \<^verbatim>\<open>i\<close>, \<^verbatim>\<open>em\<close>, \<^verbatim>\<open>strong\<close> and
    \<^verbatim>\<open>button\<close>, a \<^verbatim>\<open>button\<close> not inside another one; for these the tree builder
    inserts the element at a start tag and pops it at the matching end tag;
  \<^item> every end tag \<^verbatim>\<open></name>\<close> closes the element that is open innermost, and no
    element is left open at the end.

  Adjacent characters form one text node.
\<close>

definition plain_char :: "16 word \<Rightarrow> bool" where
  "plain_char c \<longleftrightarrow> c \<noteq> 0x3C \<and> c \<noteq> 0x26 \<and> c \<noteq> 0x0D \<and> c \<noteq> 0"

definition lower_alpha :: "16 word \<Rightarrow> bool" where
  "lower_alpha c \<longleftrightarrow> 0x61 \<le> c \<and> c \<le> 0x7A"

definition digit :: "16 word \<Rightarrow> bool" where
  "digit c \<longleftrightarrow> 0x30 \<le> c \<and> c \<le> 0x39"

definition tag_space :: "16 word \<Rightarrow> bool" where
  "tag_space c \<longleftrightarrow> c = 0x09 \<or> c = 0x0A \<or> c = 0x0C \<or> c = 0x20"

definition plain_names :: "jsstring list" where
  "plain_names = [lit ''div'', lit ''span'', lit ''b'', lit ''i'', lit ''em'', lit ''strong'',
                  lit ''button'']"

type_synonym attrs = "(jsstring \<times> jsstring) list"

text \<open>
  The tokenizer states that the subset reaches, with the tag name, the attributes read
  so far, the attribute name and the value under construction.
\<close>

datatype tmode =
    Data | TagOpen | TagName jsstring
  | BeforeAttrName jsstring attrs | AttrName jsstring attrs jsstring
  | BeforeAttrValue jsstring attrs jsstring | AttrValue jsstring attrs jsstring jsstring
  | AfterAttrValue jsstring attrs
  | EndTagOpen | EndTagName jsstring

text \<open>
  The stack of open elements, innermost first, each with the children it has so far;
  the last frame is the root of the fragment.
\<close>

type_synonym frame = "element \<times> node list"
type_synonym pstate = "tmode \<times> frame list"

definition parsed_element :: "jsstring \<Rightarrow> attrs \<Rightarrow> element" where
  "parsed_element name as =
     \<lparr>nid = 0, localName = name,
      className = (case map_of as (lit ''class'') of Some v \<Rightarrow> v | None \<Rightarrow> []),
      attributes = filter (\<lambda>(k, v). k \<noteq> lit ''class'') as,
      style_zIndex = []\<rparr>"

definition open_element :: "jsstring \<Rightarrow> attrs \<Rightarrow> frame list \<Rightarrow> pstate option" where
  "open_element name as frames =
     (if name \<in> set plain_names \<and>
         (name = lit ''button'' \<longrightarrow> list_all (\<lambda>f. localName (fst f) \<noteq> lit ''button'') frames)
      then Some (Data, (parsed_element name as, []) # frames) else None)"

fun close_element :: "jsstring \<Rightarrow> frame list \<Rightarrow> pstate option" where
  "close_element name ((e, cs) # (e', cs') # frames) =
     (if localName e = name then Some (Data, (e', cs' @ [Element e cs]) # frames) else None)"
| "close_element name frames = None"

fun add_char :: "16 word \<Rightarrow> frame list \<Rightarrow> pstate option" where
  "add_char c ((e, cs) # frames) = Some (Data, (e, cs @ [Text [c]]) # frames)"
| "add_char c [] = None"

fun step :: "pstate \<Rightarrow> 16 word \<Rightarrow> pstate option" where
  "step (Data, frames) c =
     (if c = 0x3C then Some (TagOpen, frames)
      else if plain_char c then add_char c frames else None)"
| "step (TagOpen, frames) c =
     (if c = 0x2F then Some (EndTagOpen, frames)
      else if lower_alpha c then Some (TagName [c], frames) else None)"
| "step (TagName n, frames) c =
     (if lower_alpha c then Some (TagName (n @ [c]), frames)
      else if tag_space c then Some (BeforeAttrName n [], frames)
      else if c = 0x3E then open_element n [] frames else None)"
| "step (BeforeAttrName n as, frames) c =
     (if tag_space c then Some (BeforeAttrName n as, frames)
      else if c = 0x3E then open_element n as frames
      else if lower_alpha c then Some (AttrName n as [c], frames) else None)"
| "step (AttrName n as a, frames) c =
     (if lower_alpha c \<or> digit c \<or> c = 0x2D then Some (AttrName n as (a @ [c]), frames)
      else if c = 0x3D \<and> a \<notin> fst ` set as \<and> a \<noteq> lit ''style''
           then Some (BeforeAttrValue n as a, frames)
      else None)"
| "step (BeforeAttrValue n as a, frames) c =
     (if c = 0x22 then Some (AttrValue n as a [], frames) else None)"
| "step (AttrValue n as a v, frames) c =
     (if c = 0x22 then Some (AfterAttrValue n (as @ [(a, v)]), frames)
      else if c = 0x26 \<or> c = 0x0D \<or> c = 0 then None
      else Some (AttrValue n as a (v @ [c]), frames))"
| "step (AfterAttrValue n as, frames) c =
     (if tag_space c then Some (BeforeAttrName n as, frames)
      else if c = 0x3E then open_element n as frames else None)"
| "step (EndTagOpen, frames) c =
     (if lower_alpha c then Some (EndTagName [c], frames) else None)"
| "step (EndTagName n, frames) c =
     (if lower_alpha c then Some (EndTagName (n @ [c]), frames)
      else if c = 0x3E then close_element n frames else None)"

fun run :: "pstate \<Rightarrow> jsstring \<Rightarrow> pstate option" where
  "run s [] = Some s"
| "run s (c # cs) = (case step s c of None \<Rightarrow> None | Some s' \<Rightarrow> run s' cs)"

text \<open>Adjacent text nodes are one node: \<open>cons_text s\<close> puts the text \<open>s\<close> in front of a forest.\<close>

fun cons_text :: "jsstring \<Rightarrow> node list \<Rightarrow> node list" where
  "cons_text s (Text t # ns) = Text (s @ t) # ns"
| "cons_text s ns = (if s = [] then ns else Text s # ns)"

fun merge_text :: "node list \<Rightarrow> node list" where
  "merge_text [] = []"
| "merge_text (Text s # ns) = cons_text s (merge_text ns)"
| "merge_text (Element e cs # ns) = Element e (merge_text cs) # merge_text ns"

definition fragment_root :: element where
  "fragment_root = \<lparr>nid = 0, localName = [], className = [], attributes = [], style_zIndex = []\<rparr>"

definition parse_simple :: "jsstring \<Rightarrow> node list option" where
  "parse_simple s =
     (case run (Data, [(fragment_root, [])]) s of
        Some (Data, [(e, cs)]) \<Rightarrow> Some (merge_text cs)
      | _ \<Rightarrow> None)"

text \<open>A parser conforms when it agrees with \<open>parse_simple\<close> wherever that is defined.\<close>

definition conforming :: "(jsstring \<Rightarrow> node list) \<Rightarrow> bool" where
  "conforming h \<longleftrightarrow> (\<forall>s ns. parse_simple s = Some ns \<longrightarrow> h s = ns)"

text \<open>
  The parser of the example pages: \<open>parse_simple\<close> where it is defined, and no nodes for
  any other string.
\<close>

definition subset_parser :: "jsstring \<Rightarrow> node list" where
  "subset_parser s = (case parse_simple s of Some ns \<Rightarrow> ns | None \<Rightarrow> [])"


section \<open>The window: document, host environment, notifier namespace\<close>

datatype js_error = TypeError | ReferenceError

text \<open>
  The global \<^verbatim>\<open>bootstrap\<close>: not declared at all (reading it is a ReferenceError),
  declared without a \<^verbatim>\<open>Toast\<close> constructor (\<^verbatim>\<open>new\<close> on it is a TypeError), or with it.
\<close>

datatype bootstrap_global = Undeclared | NoToast | HasToast

text \<open>
  \<open>body\<close> is the list of child nodes of \<^verbatim>\<open>document.body\<close>, \<open>None\<close> while the document
  has no body; the model's document is this forest (the \<^verbatim>\<open>html\<close>, \<^verbatim>\<open>head\<close> and \<^verbatim>\<open>body\<close>
  elements themselves are not candidates of a selector). \<open>detached\<close> holds the subtrees that
  were removed from their parent and are still referenced. \<open>next_id\<close> is the identity
  the next new element receives. \<open>created\<close> is the history of \<^verbatim>\<open>document.createElement\<close>:
  the identities it has returned, in order; no behaviour depends on it, it tells the
  elements the script made from the ones a parser made. \<open>BudgeteerNotifications\<close> is the
  namespace object on \<^verbatim>\<open>window\<close>: \<open>None\<close> when the property is not set, otherwise the
  names of the properties that are bound to the functions of \<^verbatim>\<open>popup.js\<close>. \<open>shown\<close> lists
  the toasts whose widget was asked to show, \<open>hidden_listeners\<close> the toasts with a
  registered \<^verbatim>\<open>hidden.bs.toast\<close> listener. \<open>html_parse\<close> is the host's HTML fragment
  parser.
\<close>

record world =
  body :: "node list option"
  detached :: "node list"
  next_id :: nat
  created :: "nat list"
  bootstrap :: bootstrap_global
  BudgeteerNotifications :: "jsstring list option"
  shown :: "nat list"
  hidden_listeners :: "nat list"
  html_parse :: "jsstring \<Rightarrow> node list"

text \<open>A call either returns, or throws and leaves the window as it was at the throw.\<close>

type_synonym result = "(js_error \<times> world) + world"

definition document :: "world \<Rightarrow> node list" where
  "document w = (case body w of None \<Rightarrow> [] | Some ns \<Rightarrow> ns)"

definition querySelectorAll :: "jsstring list \<Rightarrow> world \<Rightarrow> element list" where
  "querySelectorAll sel w = filter (matches sel) (elems (document w))"

definition querySelector :: "jsstring list \<Rightarrow> world \<Rightarrow> nat option" where
  "querySelector sel w = (case querySelectorAll sel w of [] \<Rightarrow> None | e # _ \<Rightarrow> Some (nid e))"

definition createElement :: "world \<Rightarrow> nat \<times> world" where
  "createElement w =
     (next_id w, w\<lparr>next_id := Suc (next_id w), created := created w @ [next_id w]\<rparr>)"

definition appendChild :: "nat \<Rightarrow> node \<Rightarrow> world \<Rightarrow> world" where
  "appendChild p c w =
     w\<lparr>body := map_option (append_child p c) (body w),
       detached := append_child p c (detached w)\<rparr>"

text \<open>
  \<^verbatim>\<open>element.innerHTML = s\<close> on an element that has no parent yet: its children become
  the nodes the parser returns for \<open>s\<close>, each new element with an identity of its own.
\<close>

definition set_innerHTML :: "jsstring \<Rightarrow> element \<Rightarrow> world \<Rightarrow> node \<times> world" where
  "set_innerHTML s e w =
     (let cs = number (next_id w) (html_parse w s)
      in (Element e cs, w\<lparr>next_id := next_id w + length (elems cs)\<rparr>))"

fun childNodes :: "node \<Rightarrow> node list" where
  "childNodes (Element e cs) = cs"
| "childNodes (Text s) = []"

fun del_below :: "nat \<Rightarrow> node \<Rightarrow> node" where
  "del_below i (Element e cs) = Element e (del i cs)"
| "del_below i (Text s) = Text s"

text \<open>
  \<^verbatim>\<open>node.remove()\<close>: a node with a parent leaves the parent's child list and stays alive
  as a detached subtree; a node without a parent is left alone.
\<close>

definition remove :: "nat \<Rightarrow> world \<Rightarrow> world" where
  "remove i w =
     (case find_node i (document w) of
        Some (e, cs) \<Rightarrow>
          w\<lparr>body := map_option (del i) (body w), detached := Element e cs # detached w\<rparr>
      | None \<Rightarrow>
          (case find_node i (concat (map childNodes (detached w))) of
             Some (e, cs) \<Rightarrow> w\<lparr>detached := Element e cs # map (del_below i) (detached w)\<rparr>
           | None \<Rightarrow> w))"

section \<open>popup.js: the notifier\<close>

text \<open>The glyphs \<^verbatim>\<open>U+2705\<close>, \<^verbatim>\<open>U+26A0 U+FE0F\<close>, \<^verbatim>\<open>U+274C\<close>, \<^verbatim>\<open>U+2139 U+FE0F\<close>, each followed by a space.\<close>

definition glyph_success :: jsstring where
  "glyph_success = [0x2705, 0x20]"

definition glyph_warning :: jsstring where
  "glyph_warning = [0x26A0, 0xFE0F, 0x20]"

definition glyph_danger :: jsstring where
  "glyph_danger = [0x274C, 0x20]"

definition glyph_info :: jsstring where
  "glyph_info = [0x2139, 0xFE0F, 0x20]"

text \<open>
  The template literal assigned to \<^verbatim>\<open>toast.innerHTML\<close> (lines 35 to 40): the text before
  \<^verbatim>\<open>${message}\<close>, the message spliced in as it is, the text after it.
\<close>

definition markup_open :: jsstring where
  \<open>markup_open =
     [0x0A] @ lit ''            <div class="d-flex">'' @
     [0x0A] @ lit ''                <div class="toast-body">''\<close>

definition markup_close :: jsstring where
  \<open>markup_close =
     lit ''</div>'' @
     [0x0A] @ lit ''                <button type="button" class="btn-close btn-close-white me-2 m-auto" data-bs-dismiss="toast" aria-label="Close"></button>'' @
     [0x0A] @ lit ''            </div>'' @
     [0x0A] @ lit ''        ''\<close>

definition toast_markup :: "jsstring \<Rightarrow> jsstring" where
  "toast_markup message = markup_open @ message @ markup_close"

definition container_element :: "nat \<Rightarrow> element" where
  "container_element c =
     \<lparr>nid = c, localName = lit ''div'',
      className = lit ''toast-container position-fixed top-0 end-0 p-3'',
      attributes = [], style_zIndex = lit ''9999''\<rparr>"

definition toast_element :: "nat \<Rightarrow> jsstring \<Rightarrow> element" where
  "toast_element t ty =
     \<lparr>nid = t, localName = lit ''div'',
      className = lit ''toast align-items-center text-white bg-'' @ ty @ lit '' border-0'',
      attributes = [(lit ''role'', lit ''alert''), (lit ''aria-live'', lit ''assertive''),
                    (lit ''aria-atomic'', lit ''true'')],
      style_zIndex = []\<rparr>"

text \<open>
  Lines 21 to 27 of \<^verbatim>\<open>_showToast\<close>: the toast container is looked up, and created as the
  last child of \<^verbatim>\<open>document.body\<close> when the page has none. Without a body,
  \<^verbatim>\<open>document.body.appendChild\<close> throws a TypeError.
\<close>

definition toast_container :: "world \<Rightarrow> (js_error \<times> world) + (nat \<times> world)" where
  "toast_container w =
     (case querySelector [lit ''toast-container''] w of
        Some c \<Rightarrow> Inr (c, w)
      | None \<Rightarrow>
          (let (c, w1) = createElement w
           in case body w1 of
                None \<Rightarrow> Inl (TypeError, w1)
              | Some ns \<Rightarrow> Inr (c, w1\<lparr>body := Some (ns @ [Element (container_element c) []])\<rparr>)))"


text \<open>
  Lines 44 to 50: the widget is constructed and shown, then the \<^verbatim>\<open>hidden.bs.toast\<close>
  listener is registered. Evaluating \<^verbatim>\<open>new bootstrap.Toast(toast)\<close> throws when the
  constructor is missing.
\<close>

definition activate :: "nat \<Rightarrow> world \<Rightarrow> result" where
  "activate t w =
     (case bootstrap w of
        Undeclared \<Rightarrow> Inl (ReferenceError, w)
      | NoToast \<Rightarrow> Inl (TypeError, w)
      | HasToast \<Rightarrow>
          Inr (w\<lparr>shown := shown w @ [t], hidden_listeners := hidden_listeners w @ [t]\<rparr>))"

text \<open>
  \<^verbatim>\<open>_showToast(type, message)\<close>: the toast element is created (lines 30 to 34), the
  template with the message goes into its \<^verbatim>\<open>innerHTML\<close> (lines 35 to 40), and it is
  appended to the container before the widget is constructed, so a missing
  \<^verbatim>\<open>bootstrap.Toast\<close> throws with the toast already in the page and no listener
  registered.
\<close>

definition showToast :: "jsstring \<Rightarrow> jsstring \<Rightarrow> world \<Rightarrow> result" where
  "showToast ty message w =
     (case toast_container w of
        Inl err \<Rightarrow> Inl err
      | Inr (c, w2) \<Rightarrow>
          (let (t, w3) = createElement w2;
               (toast, w4) = set_innerHTML (toast_markup message) (toast_element t ty) w3;
               w5 = appendChild c toast w4
           in activate t w5))"

text \<open>
  \<^verbatim>\<open>this._showToast(...)\<close> inside an entry point: \<^verbatim>\<open>this\<close> is the namespace object, and
  calling a property that is not bound throws a TypeError.
\<close>

definition this_showToast :: "jsstring \<Rightarrow> jsstring \<Rightarrow> world \<Rightarrow> result" where
  "this_showToast ty message w =
     (case BudgeteerNotifications w of
        None \<Rightarrow> Inl (TypeError, w)
      | Some props \<Rightarrow>
          if lit ''_showToast'' \<in> set props then showToast ty message w
          else Inl (TypeError, w))"

definition showSuccess :: "jsstring \<Rightarrow> world \<Rightarrow> result" where
  "showSuccess message w = this_showToast (lit ''success'') (glyph_success @ message) w"

definition showWarning :: "jsstring \<Rightarrow> world \<Rightarrow> result" where
  "showWarning message w = this_showToast (lit ''warning'') (glyph_warning @ message) w"

definition showDanger :: "jsstring \<Rightarrow> world \<Rightarrow> result" where
  "showDanger message w = this_showToast (lit ''danger'') (glyph_danger @ message) w"

definition showInfo :: "jsstring \<Rightarrow> world \<Rightarrow> result" where
  "showInfo message w = this_showToast (lit ''info'') (glyph_info @ message) w"

text \<open>The listener registered on line 48: \<^verbatim>\<open>toast.remove()\<close> each time the event is delivered.\<close>

definition hidden_bs_toast :: "nat \<Rightarrow> world \<Rightarrow> world" where
  "hidden_bs_toast t w = (if t \<in> set (hidden_listeners w) then remove t w else w)"

text \<open>Evaluating the script: the namespace object is assigned to \<^verbatim>\<open>window.BudgeteerNotifications\<close>.\<close>

definition script_load :: "world \<Rightarrow> world" where
  "script_load w =
     w\<lparr>BudgeteerNotifications :=
         Some [lit ''showSuccess'', lit ''showWarning'', lit ''showDanger'', lit ''showInfo'',
               lit ''_showToast'']\<rparr>"

section \<open>popup.js: migration of the flash messages\<close>

text \<open>
  \<^verbatim>\<open>window.BudgeteerNotifications[name](message)\<close>. A one-argument call of
  \<^verbatim>\<open>_showToast\<close> leaves its second parameter \<^verbatim>\<open>undefined\<close>, which the template literal
  prints as that word.
\<close>

definition call_method :: "jsstring \<Rightarrow> jsstring \<Rightarrow> world \<Rightarrow> result" where
  "call_method name message w =
     (case BudgeteerNotifications w of
        None \<Rightarrow> Inl (TypeError, w)
      | Some props \<Rightarrow>
          if name \<notin> set props then Inl (TypeError, w)
          else if name = lit ''showSuccess'' then showSuccess message w
          else if name = lit ''showWarning'' then showWarning message w
          else if name = lit ''showDanger'' then showDanger message w
          else if name = lit ''showInfo'' then showInfo message w
          else if name = lit ''_showToast'' then this_showToast message (lit ''undefined'') w
          else Inl (TypeError, w))"

text \<open>The truthiness test of line 63.\<close>

definition available :: "jsstring \<Rightarrow> world \<Rightarrow> bool" where
  "available name w =
     (case BudgeteerNotifications w of None \<Rightarrow> False | Some props \<Rightarrow> name \<in> set props)"

definition category_of :: "element \<Rightarrow> jsstring" where
  "category_of alert =
     (if contains alert (lit ''alert-success'') then lit ''success''
      else if contains alert (lit ''alert-warning'') then lit ''warning''
      else if contains alert (lit ''alert-danger'') then lit ''danger''
      else lit ''info'')"

definition method_name :: "jsstring \<Rightarrow> jsstring" where
  "method_name category = lit ''show'' @ toUpperCase (charAt0 category) @ slice1 category"

text \<open>
  The callback of \<^verbatim>\<open>alerts.forEach\<close>. The node list holds references, so the alert is
  dereferenced in the window as it is when its turn comes: in the document, or in a
  subtree that an earlier \<^verbatim>\<open>remove()\<close> detached. A reference always denotes a live node;
  the failing branch of the lookup only keeps the function total. An exception thrown by
  the notifier leaves the callback before \<^verbatim>\<open>alert.remove()\<close>.
\<close>

definition migrate :: "nat \<Rightarrow> world \<Rightarrow> result" where
  "migrate alert w =
     (case find_node alert (document w @ detached w) of
        None \<Rightarrow> Inl (TypeError, w)
      | Some (e, cs) \<Rightarrow>
          (let category = category_of e;
               message = trim (text_of cs)
           in if available (method_name category) w
              then (case call_method (method_name category) message w of
                      Inl err \<Rightarrow> Inl err
                    | Inr w1 \<Rightarrow> Inr (remove alert w1))
              else Inr (remove alert w)))"

text \<open>\<^verbatim>\<open>forEach\<close> over the static node list: an exception ends the iteration.\<close>

fun forEach :: "nat list \<Rightarrow> world \<Rightarrow> result" where
  "forEach [] w = Inr w"
| "forEach (alert # alerts) w =
     (case migrate alert w of Inl err \<Rightarrow> Inl err | Inr w1 \<Rightarrow> forEach alerts w1)"

definition DOMContentLoaded :: "world \<Rightarrow> result" where
  "DOMContentLoaded w =
     forEach (map nid (querySelectorAll [lit ''alert'', lit ''d-none''] w)) w"

section \<open>Well-formed windows\<close>

text \<open>
  Identities are references: no two live elements share one, and a new element never
  receives one that is in use.
\<close>

definition all_elems :: "world \<Rightarrow> element list" where
  "all_elems w = elems (document w) @ elems (detached w)"

definition well_formed :: "world \<Rightarrow> bool" where
  "well_formed w \<longleftrightarrow> distinct (map nid (all_elems w)) \<and> list_all (\<lambda>e. nid e < next_id w) (all_elems w)"

text \<open>The history is sound when every identity \<^verbatim>\<open>createElement\<close> has returned is a past one.\<close>

definition history_ok :: "world \<Rightarrow> bool" where
  "history_ok w \<longleftrightarrow> list_all (\<lambda>i. i < next_id w) (created w)"

text \<open>The window a call leaves behind, whether it returned or threw.\<close>

fun after :: "result \<Rightarrow> world" where
  "after (Inl (err, w)) = w"
| "after (Inr w) = w"

fun returned :: "result \<Rightarrow> bool" where
  "returned (Inl err) = False"
| "returned (Inr w) = True"

section \<open>Observations used to state the properties\<close>

text \<open>The child nodes of an element of the document; none if the element is not in the document.\<close>

definition children_in :: "nat \<Rightarrow> world \<Rightarrow> node list" where
  "children_in c w = (case find_node c (document w) of None \<Rightarrow> [] | Some (e, cs) \<Rightarrow> cs)"

text \<open>
  The container \<^verbatim>\<open>_showToast\<close> uses in a window, and the identity it gives the toast:
  the first \<^verbatim>\<open>.toast-container\<close> of the document if there is one, otherwise the element
  it creates first.
\<close>

definition container_id :: "world \<Rightarrow> nat" where
  "container_id w =
     (case querySelector [lit ''toast-container''] w of Some c \<Rightarrow> c | None \<Rightarrow> next_id w)"

definition toast_id :: "world \<Rightarrow> nat" where
  "toast_id w =
     (case querySelector [lit ''toast-container''] w of
        Some c \<Rightarrow> next_id w | None \<Rightarrow> Suc (next_id w))"

text \<open>
  The toast that lines 30 to 40 build when the element gets the identity \<open>t\<close> and the
  parser is \<open>h\<close>: the content is numbered from \<open>t + 1\<close>.
\<close>

definition new_toast :: "(jsstring \<Rightarrow> node list) \<Rightarrow> nat \<Rightarrow> jsstring \<Rightarrow> jsstring \<Rightarrow> node" where
  "new_toast h t ty message =
     Element (toast_element t ty) (number (Suc t) (h (toast_markup message)))"

text \<open>The number of elements of a subtree, which is the number of identities it took.\<close>

definition weight :: "node \<Rightarrow> nat" where
  "weight n = length (elems [n])"

text \<open>
  The first element of a forest, in document order, that has a given class, with its
  children; and the child nodes of \<^verbatim>\<open>toast.querySelector('.toast-body')\<close>.
\<close>

fun find_class :: "jsstring \<Rightarrow> node list \<Rightarrow> (element \<times> node list) option" where
  "find_class c [] = None"
| "find_class c (Text s # ns) = find_class c ns"
| "find_class c (Element e cs # ns) =
     (if contains e c then Some (e, cs)
      else case find_class c cs of Some r \<Rightarrow> Some r | None \<Rightarrow> find_class c ns)"

definition body_nodes :: "node \<Rightarrow> node list" where
  "body_nodes toast =
     (case find_class (lit ''toast-body'') (childNodes toast) of
        Some (e, cs) \<Rightarrow> cs | None \<Rightarrow> [])"

text \<open>
  The nodes the template of lines 35 to 40 stands for, given the nodes of the body
  slot: the flex row with the body and the close button, and the white space of the
  template literal between them.
\<close>

definition flex_element :: element where
  "flex_element =
     \<lparr>nid = 0, localName = lit ''div'', className = lit ''d-flex'', attributes = [],
      style_zIndex = []\<rparr>"

definition body_element :: element where
  "body_element =
     \<lparr>nid = 0, localName = lit ''div'', className = lit ''toast-body'', attributes = [],
      style_zIndex = []\<rparr>"

definition close_button :: element where
  "close_button =
     \<lparr>nid = 0, localName = lit ''button'',
      className = lit ''btn-close btn-close-white me-2 m-auto'',
      attributes = [(lit ''type'', lit ''button''), (lit ''data-bs-dismiss'', lit ''toast''),
                    (lit ''aria-label'', lit ''Close'')],
      style_zIndex = []\<rparr>"

definition indent :: "nat \<Rightarrow> jsstring" where
  "indent n = 0x0A # replicate n 0x20"

definition template_tree :: "node list \<Rightarrow> node list" where
  "template_tree body_slot =
     [Text (indent 12),
      Element flex_element
        [Text (indent 16), Element body_element body_slot, Text (indent 16),
         Element close_button [], Text (indent 12)],
      Text (indent 8)]"

section \<open>Tables and example pages\<close>

text \<open>The four category names, which are also the \<^verbatim>\<open>type\<close> arguments of \<^verbatim>\<open>_showToast\<close>.\<close>

definition categories :: "jsstring list" where
  "categories = [lit ''success'', lit ''warning'', lit ''danger'', lit ''info'']"

text \<open>The entry points of lines 3 to 17, each with the category and the glyph it passes on.\<close>

definition entry_points :: "(jsstring \<times> jsstring \<times> (jsstring \<Rightarrow> world \<Rightarrow> result)) list" where
  "entry_points =
     [(lit ''success'', glyph_success, showSuccess), (lit ''warning'', glyph_warning, showWarning),
      (lit ''danger'', glyph_danger, showDanger), (lit ''info'', glyph_info, showInfo)]"

text \<open>
  A page with an empty body in which no script has run and \<^verbatim>\<open>bootstrap\<close> is not loaded.
\<close>

definition empty_page :: world where
  "empty_page =
     \<lparr>body = Some [], detached = [], next_id = 0, created = [], bootstrap = Undeclared,
      BudgeteerNotifications = None, shown = [], hidden_listeners = [],
      html_parse = subset_parser\<rparr>"

text \<open>What \<open>activate\<close> leaves behind: the widget state is extended only if the constructor exists.\<close>

definition shown_by :: "nat \<Rightarrow> world \<Rightarrow> world" where
  "shown_by t w =
     (if bootstrap w = HasToast
      then w\<lparr>shown := shown w @ [t], hidden_listeners := hidden_listeners w @ [t]\<rparr> else w)"

text \<open>The empty page after \<^verbatim>\<open>bootstrap\<close> and \<^verbatim>\<open>popup.js\<close> have loaded.\<close>

definition loaded_page :: world where
  "loaded_page = script_load (empty_page\<lparr>bootstrap := HasToast\<rparr>)"

text \<open>
  A sequence of calls of entry points, each made on its own (a fault of one call does
  not keep the next from being made), and the toasts such a sequence is expected to
  create with a given parser, numbered from a given identity.
\<close>

type_synonym entry_point = "jsstring \<times> jsstring \<times> (jsstring \<Rightarrow> world \<Rightarrow> result)"

fun show_all :: "(entry_point \<times> jsstring) list \<Rightarrow> world \<Rightarrow> world" where
  "show_all [] w = w"
| "show_all (((sev, glyph, f), m) # calls) w = show_all calls (after (f m w))"

fun toasts_of ::
  "(jsstring \<Rightarrow> node list) \<Rightarrow> (entry_point \<times> jsstring) list \<Rightarrow> nat \<Rightarrow> node list" where
  "toasts_of h [] k = []"
| "toasts_of h (((sev, glyph, f), m) # calls) k =
     new_toast h k sev (glyph @ m) #
     toasts_of h calls (k + weight (new_toast h k sev (glyph @ m)))"

text \<open>A loaded page whose markup already supplies a toast container.\<close>

definition page_with_container :: world where
  "page_with_container =
     loaded_page\<lparr>body := Some [Element \<lparr>nid = 0, localName = lit ''div'',
                                        className = lit ''toast-container'',
                                        attributes = [], style_zIndex = []\<rparr> []],
                 next_id := 1\<rparr>"

text \<open>An element is attached when it has a parent: it is in the document or below a detached root.\<close>

definition attached :: "nat \<Rightarrow> world \<Rightarrow> bool" where
  "attached i w \<longleftrightarrow>
     i \<in> nid ` set (elems (document w)) \<or>
     i \<in> nid ` set (elems (concat (map childNodes (detached w))))"

text \<open>The end of the \<^verbatim>\<open>forEach\<close> callback after a notifier call: \<^verbatim>\<open>alert.remove()\<close>, unless the call threw.\<close>

definition then_remove :: "nat \<Rightarrow> result \<Rightarrow> result" where
  "then_remove alert r = (case r of Inl err \<Rightarrow> Inl err | Inr w \<Rightarrow> Inr (remove alert w))"

text \<open>
  The toasts of a window: the live elements, in the document or detached, that
  \<^verbatim>\<open>createElement\<close> returned and that have the class \<^verbatim>\<open>toast\<close>. An element that the
  parser made of a message is not one, whatever its class.
\<close>

definition toasts :: "world \<Rightarrow> element list" where
  "toasts w =
     filter (\<lambda>e. nid e \<in> set (created w) \<and> contains e (lit ''toast'')) (all_elems w)"

text \<open>
  A page whose body holds one hidden flash message, as the server renders it, before any
  script has run: \<^verbatim>\<open><div class="alert alert-warning d-none"> Low balance </div>\<close>.
\<close>

definition flash_alert :: element where
  "flash_alert =
     \<lparr>nid = 0, localName = lit ''div'', className = lit ''alert alert-warning d-none'',
      attributes = [], style_zIndex = []\<rparr>"

definition flash_page :: world where
  "flash_page =
     empty_page\<lparr>body := Some [Element flash_alert [Text (lit '' Low balance '')]], next_id := 1\<rparr>"

text \<open>
  A page on which \<^verbatim>\<open>bootstrap\<close> and \<^verbatim>\<open>popup.js\<close> have loaded and whose body holds one
  element with the given class attribute and text.
\<close>

definition alert_page :: "jsstring \<Rightarrow> jsstring \<Rightarrow> world" where
  "alert_page cls msg =
     loaded_page\<lparr>body := Some [Element \<lparr>nid = 0, localName = lit ''div'', className = cls,
                                        attributes = [], style_zIndex = []\<rparr> [Text msg]],
                 next_id := 1\<rparr>"

text \<open>
  The elements that can come into a window later: their identity is not below the
  window's next one.
\<close>

definition newer :: "world \<Rightarrow> element set" where
  "newer w = {x. next_id w \<le> nid x}"

section \<open>Auxiliary notions for the parser proofs\<close>

text \<open>The text nodes the tree builder inserts for a run of characters, before merging.\<close>

definition chars :: "jsstring \<Rightarrow> node list" where
  "chars s = map (\<lambda>c. Text [c]) s"

definition no_button :: "frame list \<Rightarrow> bool" where
  "no_button frames = list_all (\<lambda>f. localName (fst f) \<noteq> lit ''button'') frames"

text \<open>The three tags of the template.\<close>

definition flex_tag :: jsstring where
  \<open>flex_tag = lit ''<div class="d-flex">''\<close>

definition body_tag :: jsstring where
  \<open>body_tag = lit ''<div class="toast-body">''\<close>

definition button_tag :: jsstring where
  \<open>button_tag = lit ''<button type="button" class="btn-close btn-close-white me-2 m-auto" data-bs-dismiss="toast" aria-label="Close"></button>''\<close>

text \<open>
  A message that is itself the markup of a hidden flash message, and the loaded page
  after it was shown as a toast.
\<close>

definition alert_markup :: jsstring where
  \<open>alert_markup = lit ''<div class="alert d-none">x</div>''\<close>

definition nested_alert_page :: world where
  "nested_alert_page = after (showInfo alert_markup loaded_page)"

section \<open>Forests: dereferencing, deleting, appending\<close>

lemma elems_append: "elems (f @ g) = elems f @ elems g"
  by (induction f rule: elems.induct) simp_all

lemma find_node_append:
  "find_node i (f @ g) = (case find_node i f of Some r \<Rightarrow> Some r | None \<Rightarrow> find_node i g)"
  by (induction f rule: elems.induct) (simp_all split: option.splits)

lemma find_node_None: "find_node i f = None \<longleftrightarrow> i \<notin> nid ` set (elems f)"
  by (induction f rule: elems.induct) (auto split: option.splits)

lemma find_node_Some:
  "find_node i f = Some (e, cs) \<Longrightarrow> nid e = i \<and> e \<in> set (elems f) \<and> set (elems cs) \<subseteq> set (elems f)"
  by (induction f rule: elems.induct) (auto split: option.splits if_splits)

lemma del_absent: "i \<notin> nid ` set (elems f) \<Longrightarrow> del i f = f"
  by (induction f rule: elems.induct) auto

lemma append_child_absent: "p \<notin> nid ` set (elems f) \<Longrightarrow> append_child p c f = f"
  by (induction f rule: elems.induct) auto

lemma del_gone: "i \<notin> nid ` set (elems (del i f))"
  by (induction f rule: elems.induct) auto

lemma del_set: "set (elems (del i f)) \<subseteq> set (elems f)"
  by (induction f rule: elems.induct) auto

lemma del_mset:
  "distinct (map nid (elems f)) \<Longrightarrow> find_node i f = Some (e, cs) \<Longrightarrow>
   mset (elems f) = mset (elems (del i f)) + mset (e # elems cs)"
proof (induction f rule: elems.induct)
  case (3 e' cs' ns)
  show ?case
  proof (cases "nid e' = i")
    case True
    with 3 have "i \<notin> nid ` set (elems ns)" by auto
    then have "del i ns = ns" by (rule del_absent)
    with 3 True show ?thesis by simp
  next
    case False
    show ?thesis
    proof (cases "find_node i cs'")
      case None
      then have "del i cs' = cs'" by (simp add: find_node_None del_absent)
      with 3 False None show ?thesis by simp
    next
      case (Some r)
      then have "i \<in> nid ` set (elems cs')" using find_node_None[of i cs'] by simp
      with 3 have "i \<notin> nid ` set (elems ns)" by auto
      then have "del i ns = ns" by (rule del_absent)
      with 3 False Some show ?thesis by simp
    qed
  qed
qed simp_all

lemma append_child_mset:
  "distinct (map nid (elems f)) \<Longrightarrow> p \<in> nid ` set (elems f) \<Longrightarrow>
   mset (elems (append_child p c f)) = mset (elems f) + mset (elems [c])"
proof (induction f rule: elems.induct)
  case (3 e cs ns)
  show ?case
  proof (cases "nid e = p")
    case True
    then show ?thesis by (simp add: elems_append)
  next
    case False
    show ?thesis
    proof (cases "p \<in> nid ` set (elems cs)")
      case True
      with 3 have "p \<notin> nid ` set (elems ns)" by auto
      then have "append_child p c ns = ns" by (rule append_child_absent)
      with 3 False True show ?thesis by simp
    next
      case F2: False
      then have "append_child p c cs = cs" by (rule append_child_absent)
      with 3 False F2 show ?thesis by auto
    qed
  qed
qed simp_all

lemma append_child_find:
  "find_node p f = Some (e, cs) \<Longrightarrow> find_node p (append_child p c f) = Some (e, cs @ [c])"
proof (induction f rule: elems.induct)
  case (3 e' cs' ns)
  show ?case
  proof (cases "nid e' = p")
    case True
    with 3 show ?thesis by simp
  next
    case False
    show ?thesis
    proof (cases "find_node p cs'")
      case None
      then have "append_child p c cs' = cs'" by (simp add: find_node_None append_child_absent)
      with 3 False None show ?thesis by simp
    next
      case (Some r)
      with 3 False show ?thesis by simp
    qed
  qed
qed simp_all

lemma append_child_filter:
  "\<forall>x \<in> set (elems [c]). \<not> P x \<Longrightarrow> filter P (elems (append_child p c f)) = filter P (elems f)"
  by (induction f rule: elems.induct) (simp_all add: elems_append)


lemma append_child_first:
  "distinct (map nid (elems f)) \<Longrightarrow> filter P (elems f) = e # es \<Longrightarrow> nid e = p \<Longrightarrow>
   \<exists>es'. filter P (elems (append_child p c f)) = e # es'"
proof (induction f arbitrary: es rule: elems.induct)
  case (3 e' cs ns)
  show ?case
  proof (cases "nid e' = p")
    case True
    have "P e'"
    proof (rule ccontr)
      assume "\<not> P e'"
      with 3(4) have "e \<in> set (filter P (elems cs @ elems ns))" by simp
      then have "nid e \<in> nid ` set (elems cs @ elems ns)" by auto
      with 3(3,5) True show False by auto
    qed
    with 3(4) have "e' = e" by simp
    with True \<open>P e'\<close> show ?thesis by (simp add: elems_append)
  next
    case False
    with 3(4,5) have np: "\<not> P e'" by auto
    show ?thesis
    proof (cases "filter P (elems cs)")
      case Nil
      with 3(4) np have ns: "filter P (elems ns) = e # es" by simp
      then have "e \<in> set (filter P (elems ns))" by simp
      then have "p \<in> nid ` set (elems ns)" using 3(5) by auto
      with 3(3) have "p \<notin> nid ` set (elems cs)" by auto
      then have "append_child p c cs = cs" by (rule append_child_absent)
      moreover from 3(3) have "distinct (map nid (elems ns))" by simp
      from "3.IH"(2)[OF this ns 3(5)] obtain es' where
        "filter P (elems (append_child p c ns)) = e # es'" by blast
      ultimately show ?thesis using False np Nil by simp
    next
      case (Cons x xs)
      with 3(4) np have x: "x = e" by simp
      from 3(3) have "distinct (map nid (elems cs))" by simp
      from "3.IH"(1)[OF this Cons[unfolded x] 3(5)] obtain es' where
        "filter P (elems (append_child p c cs)) = e # es'" by blast
      with False np show ?thesis by simp
    qed
  qed
qed simp_all

section \<open>Numbering parsed nodes\<close>

lemma length_elems_number [simp]: "length (elems (number k ns)) = length (elems ns)"
  by (induction k ns rule: number.induct) simp_all

lemma number_bounds:
  "x \<in> set (elems (number k ns)) \<Longrightarrow> k \<le> nid x \<and> nid x < k + length (elems ns)"
proof (induction k ns rule: number.induct)
  case (3 k e cs ns)
  from "3.prems" consider "x = e\<lparr>nid := k\<rparr>" | "x \<in> set (elems (number (Suc k) cs))"
    | "x \<in> set (elems (number (Suc k + length (elems cs)) ns))"
    by auto
  then show ?case
  proof cases
    case 1
    then show ?thesis by simp
  next
    case 2
    from "3.IH"(1)[OF this] show ?thesis by simp
  next
    case 3
    from "3.IH"(2)[OF this] show ?thesis by simp
  qed
qed simp_all

lemma number_distinct: "distinct (map nid (elems (number k ns)))"
proof (induction k ns rule: number.induct)
  case (3 k e cs ns)
  have a: "k \<notin> nid ` set (elems (number (Suc k) cs))"
    and b: "k \<notin> nid ` set (elems (number (Suc k + length (elems cs)) ns))"
    and c: "nid ` set (elems (number (Suc k) cs)) \<inter>
            nid ` set (elems (number (Suc k + length (elems cs)) ns)) = {}"
    using number_bounds[of _ "Suc k" cs] number_bounds[of _ "Suc k + length (elems cs)" ns]
    by fastforce+
  with 3 show ?case by simp
qed simp_all

lemma text_of_number [simp]: "text_of (number k ns) = text_of ns"
  by (induction k ns rule: number.induct) simp_all

lemma text_of_append: "text_of (xs @ ys) = text_of xs @ text_of ys"
  by (induction xs rule: elems.induct) simp_all

lemma contains_nid_update [simp]: "contains (e\<lparr>nid := k\<rparr>) c = contains e c"
  by (simp add: contains_def classList_def)


section \<open>The reference parser on the toast template\<close>

lemma run_append:
  "run s (xs @ ys) = (case run s xs of None \<Rightarrow> None | Some s' \<Rightarrow> run s' ys)"
  by (induction xs arbitrary: s) (simp_all split: option.splits)

lemma run_plain:
  "list_all plain_char m \<Longrightarrow>
   run (Data, (e, cs) # frames) m = Some (Data, (e, cs @ chars m) # frames)"
proof (induction m arbitrary: cs)
  case Nil
  then show ?case by (simp add: chars_def)
next
  case (Cons c m)
  then have "c \<noteq> 0x3C" and "plain_char c" by (simp_all add: plain_char_def)
  with Cons show ?case by (simp add: chars_def)
qed

lemma open_element_under:
  assumes "open_element n as (inner @ [(fragment_root, cr)]) = Some (mode', fs')"
    and "no_button ((e0, cs0) # below)"
  shows "\<exists>inner'. fs' = inner' @ [(fragment_root, cr)] \<and>
           open_element n as (inner @ (e0, cs0 @ cr) # below) =
             Some (mode', inner' @ (e0, cs0 @ cr) # below)"
  using assms
  by (auto simp: open_element_def no_button_def fragment_root_def lit_def split: if_splits)

lemma close_element_under:
  assumes "close_element n (inner @ [(fragment_root, cr)]) = Some (mode', fs')"
  shows "\<exists>inner' cr'. fs' = inner' @ [(fragment_root, cr')] \<and>
           close_element n (inner @ (e0, cs0 @ cr) # below) =
             Some (mode', inner' @ (e0, cs0 @ cr') # below)"
proof (cases inner)
  case Nil
  with assms show ?thesis by simp
next
  case (Cons f inner1)
  obtain e cs where f: "f = (e, cs)" by (cases f)
  show ?thesis
  proof (cases inner1)
    case Nil
    with assms Cons f show ?thesis by (auto split: if_splits)
  next
    case (Cons g inner2)
    obtain e' cs' where g: "g = (e', cs')" by (cases g)
    from assms \<open>inner = f # inner1\<close> Cons f g show ?thesis
      by (auto split: if_splits)
  qed
qed

lemma add_char_under:
  assumes "add_char c (inner @ [(fragment_root, cr)]) = Some (mode', fs')"
  shows "\<exists>inner' cr'. fs' = inner' @ [(fragment_root, cr')] \<and>
           add_char c (inner @ (e0, cs0 @ cr) # below) =
             Some (mode', inner' @ (e0, cs0 @ cr') # below)"
proof (cases inner)
  case Nil
  with assms show ?thesis by auto
next
  case (Cons f inner1)
  obtain e cs where f: "f = (e, cs)" by (cases f)
  with assms Cons show ?thesis by auto
qed

lemma step_under:
  assumes "step (mode, inner @ [(fragment_root, cr)]) c = Some (mode', fs')"
    and "no_button ((e0, cs0) # below)"
  shows "\<exists>inner' cr'. fs' = inner' @ [(fragment_root, cr')] \<and>
           step (mode, inner @ (e0, cs0 @ cr) # below) c =
             Some (mode', inner' @ (e0, cs0 @ cr') # below)"
proof (cases mode)
  case Data
  with assms add_char_under[of c inner cr mode' fs' e0 cs0 below] show ?thesis
    by (auto split: if_splits)
next
  case (TagName n)
  with assms open_element_under[of n "[]" inner cr mode' fs' e0 cs0 below] show ?thesis
    by (auto split: if_splits)
next
  case (BeforeAttrName n as)
  with assms open_element_under[of n as inner cr mode' fs' e0 cs0 below] show ?thesis
    by (auto split: if_splits)
next
  case (AfterAttrValue n as)
  with assms open_element_under[of n as inner cr mode' fs' e0 cs0 below] show ?thesis
    by (auto split: if_splits)
next
  case (EndTagName n)
  with assms close_element_under[of n inner cr mode' fs' e0 cs0 below] show ?thesis
    by (auto split: if_splits)
qed (use assms in \<open>auto split: if_splits\<close>)

lemma run_under:
  assumes "run (mode, inner @ [(fragment_root, cr)]) s = Some (mode', fs')"
    and "no_button ((e0, cs0) # below)"
  shows "\<exists>inner' cr'. fs' = inner' @ [(fragment_root, cr')] \<and>
           run (mode, inner @ (e0, cs0 @ cr) # below) s =
             Some (mode', inner' @ (e0, cs0 @ cr') # below)"
  using assms
proof (induction s arbitrary: mode inner cr)
  case Nil
  then show ?case by auto
next
  case (Cons c s)
  from Cons.prems(1) obtain m1 f1 where
    st: "step (mode, inner @ [(fragment_root, cr)]) c = Some (m1, f1)"
    and r: "run (m1, f1) s = Some (mode', fs')"
    by (auto split: option.splits)
  from step_under[OF st Cons.prems(2)] obtain inner1 cr1 where
    f1: "f1 = inner1 @ [(fragment_root, cr1)]"
    and st': "step (mode, inner @ (e0, cs0 @ cr) # below) c =
             Some (m1, inner1 @ (e0, cs0 @ cr1) # below)"
    by blast
  from Cons.IH[OF r[unfolded f1] Cons.prems(2)] st' show ?case by simp
qed

lemma run_fragment:
  assumes "run (Data, [(fragment_root, [])]) m = Some (Data, [(fragment_root, raw)])"
    and "no_button ((e0, cs0) # below)"
  shows "run (Data, (e0, cs0) # below) m = Some (Data, (e0, cs0 @ raw) # below)"
  using run_under[of Data "[]" "[]" m Data "[(fragment_root, raw)]" e0 cs0 below] assms
  by auto

lemma markup_open_split: "markup_open = indent 12 @ flex_tag @ indent 16 @ body_tag"
  by code_simp

lemma markup_close_split:
  "markup_close = lit ''</div>'' @ indent 16 @ button_tag @ indent 12 @ lit ''</div>'' @ indent 8"
  by code_simp

lemma run_flex_tag:
  "run (Data, [(fragment_root, [])]) flex_tag =
     Some (Data, [(flex_element, []), (fragment_root, [])])"
  by code_simp

lemma run_body_tag:
  "run (Data, [(fragment_root, [])]) body_tag =
     Some (Data, [(body_element, []), (fragment_root, [])])"
  by code_simp

lemma run_button_tag:
  "run (Data, [(fragment_root, [])]) button_tag =
     Some (Data, [(fragment_root, [Element close_button []])])"
  by code_simp

lemma run_start_under:
  assumes "run (Data, [(fragment_root, [])]) tag = Some (Data, [(e, []), (fragment_root, [])])"
    and "no_button ((e0, cs0) # below)"
  shows "run (Data, (e0, cs0) # below) tag = Some (Data, (e, []) # (e0, cs0) # below)"
  using run_under[of Data "[]" "[]" tag Data "[(e, []), (fragment_root, [])]" e0 cs0 below] assms
  by auto

lemma run_end_div:
  "localName e = lit ''div'' \<Longrightarrow>
   run (Data, (e, cs) # (e', cs') # below) (lit ''</div>'') =
     Some (Data, (e', cs' @ [Element e cs]) # below)"
  by (simp add: lit_def plain_char_def lower_alpha_def)

lemma plain_indent: "list_all plain_char (indent n)"
  by (simp add: indent_def plain_char_def list_all_iff)

lemma no_button_template:
  "no_button [(fragment_root, cs)]" "no_button [(flex_element, cs'), (fragment_root, cs)]"
  "no_button [(body_element, cs''), (flex_element, cs'), (fragment_root, cs)]"
  by (simp_all add: no_button_def fragment_root_def flex_element_def body_element_def lit_def)

lemma run_seq: "run s xs = Some s' \<Longrightarrow> run s' ys = r \<Longrightarrow> run s (xs @ ys) = r"
  by (simp add: run_append)

lemma run_template:
  assumes "list_all plain_char g"
    and "run (Data, [(fragment_root, [])]) m = Some (Data, [(fragment_root, raw)])"
  shows "run (Data, [(fragment_root, [])]) (toast_markup (g @ m)) =
     Some (Data, [(fragment_root,
       chars (indent 12) @
       [Element flex_element
          (chars (indent 16) @ [Element body_element (chars g @ raw)] @ chars (indent 16) @
           [Element close_button []] @ chars (indent 12))] @
       chars (indent 8))])"
proof -
  have d: "localName body_element = lit ''div''" "localName flex_element = lit ''div''"
    by (simp_all add: body_element_def flex_element_def)
  have 1: "run (Data, [(fragment_root, [])]) (indent 12) =
      Some (Data, [(fragment_root, chars (indent 12))])"
    using run_plain[OF plain_indent, of fragment_root "[]" "[]" 12] by simp
  have 2: "run (Data, [(fragment_root, chars (indent 12))]) flex_tag =
      Some (Data, [(flex_element, []), (fragment_root, chars (indent 12))])"
    using run_start_under[OF run_flex_tag no_button_template(1)] .
  have 3: "run (Data, [(flex_element, []), (fragment_root, chars (indent 12))]) (indent 16) =
      Some (Data, [(flex_element, chars (indent 16)), (fragment_root, chars (indent 12))])"
    using run_plain[OF plain_indent, of flex_element "[]" _ 16] by simp
  have 4: "run (Data, [(flex_element, chars (indent 16)), (fragment_root, chars (indent 12))])
        body_tag =
      Some (Data, [(body_element, []), (flex_element, chars (indent 16)),
                   (fragment_root, chars (indent 12))])"
    using run_start_under[OF run_body_tag no_button_template(2)] .
  have 5: "run (Data, [(body_element, []), (flex_element, chars (indent 16)),
                   (fragment_root, chars (indent 12))]) g =
      Some (Data, [(body_element, chars g), (flex_element, chars (indent 16)),
                   (fragment_root, chars (indent 12))])"
    using run_plain[OF assms(1), of body_element "[]"] by simp
  have 6: "run (Data, [(body_element, chars g), (flex_element, chars (indent 16)),
                   (fragment_root, chars (indent 12))]) m =
      Some (Data, [(body_element, chars g @ raw), (flex_element, chars (indent 16)),
                   (fragment_root, chars (indent 12))])"
    using run_fragment[OF assms(2) no_button_template(3)] .
  have 7: "run (Data, [(body_element, chars g @ raw), (flex_element, chars (indent 16)),
                   (fragment_root, chars (indent 12))]) (lit ''</div>'') =
      Some (Data, [(flex_element, chars (indent 16) @ [Element body_element (chars g @ raw)]),
                   (fragment_root, chars (indent 12))])"
    using run_end_div[OF d(1)] .
  let ?f1 = "chars (indent 16) @ [Element body_element (chars g @ raw)]"
  have 8: "run (Data, [(flex_element, ?f1), (fragment_root, chars (indent 12))]) (indent 16) =
      Some (Data, [(flex_element, ?f1 @ chars (indent 16)), (fragment_root, chars (indent 12))])"
    using run_plain[OF plain_indent, of flex_element ?f1 _ 16] .
  have 9: "run (Data, [(flex_element, ?f1 @ chars (indent 16)),
                       (fragment_root, chars (indent 12))]) button_tag =
      Some (Data, [(flex_element, (?f1 @ chars (indent 16)) @ [Element close_button []]),
                   (fragment_root, chars (indent 12))])"
    using run_fragment[OF run_button_tag no_button_template(2)] .
  let ?f2 = "(?f1 @ chars (indent 16)) @ [Element close_button []]"
  have 10: "run (Data, [(flex_element, ?f2), (fragment_root, chars (indent 12))]) (indent 12) =
      Some (Data, [(flex_element, ?f2 @ chars (indent 12)), (fragment_root, chars (indent 12))])"
    using run_plain[OF plain_indent, of flex_element ?f2 _ 12] .
  have 11: "run (Data, [(flex_element, ?f2 @ chars (indent 12)),
                        (fragment_root, chars (indent 12))]) (lit ''</div>'') =
      Some (Data, [(fragment_root,
         chars (indent 12) @ [Element flex_element (?f2 @ chars (indent 12))])])"
    using run_end_div[OF d(2)] .
  let ?r = "chars (indent 12) @ [Element flex_element (?f2 @ chars (indent 12))]"
  have 12: "run (Data, [(fragment_root, ?r)]) (indent 8) =
      Some (Data, [(fragment_root, ?r @ chars (indent 8))])"
    using run_plain[OF plain_indent, of fragment_root ?r "[]" 8] .
  have s: "toast_markup (g @ m) =
      indent 12 @ flex_tag @ indent 16 @ body_tag @ g @ m @ lit ''</div>'' @ indent 16 @
      button_tag @ indent 12 @ lit ''</div>'' @ indent 8"
    by (simp add: toast_markup_def markup_open_split markup_close_split)
  have "run (Data, [(fragment_root, [])]) (toast_markup (g @ m)) =
      Some (Data, [(fragment_root, ?r @ chars (indent 8))])"
    unfolding s
    by (rule run_seq[OF 1], rule run_seq[OF 2], rule run_seq[OF 3], rule run_seq[OF 4],
        rule run_seq[OF 5], rule run_seq[OF 6], rule run_seq[OF 7], rule run_seq[OF 8],
        rule run_seq[OF 9], rule run_seq[OF 10], rule run_seq[OF 11], rule 12)
  then show ?thesis by simp
qed

lemma cons_text_cons_text: "cons_text s (cons_text t ns) = cons_text (s @ t) ns"
  by (cases "(t, ns)" rule: cons_text.cases) auto

lemma cons_text_Nil [simp]: "cons_text [] ns = ns"
  by (cases "([] :: jsstring, ns)" rule: cons_text.cases) auto

lemma merge_text_chars: "merge_text (chars s @ ns) = cons_text s (merge_text ns)"
  by (induction s) (simp_all add: chars_def cons_text_cons_text)

lemma indent_not_Nil [simp]: "indent n \<noteq> []"
  by (simp add: indent_def)

lemma merge_text_template:
  "merge_text (chars (indent 12) @
       [Element flex_element
          (chars (indent 16) @ [Element body_element (chars g @ raw)] @ chars (indent 16) @
           [Element close_button []] @ chars (indent 12))] @
       chars (indent 8)) = template_tree (cons_text g (merge_text raw))"
  using merge_text_chars[of "indent 8" "[]"] merge_text_chars[of "indent 12" "[]"]
  by (simp add: merge_text_chars template_tree_def)

lemma run_root:
  assumes "run (Data, [(fragment_root, [])]) m = Some (Data, [(e, raw)])"
  shows "e = fragment_root"
  using run_under[of Data "[]" "[]" m Data "[(e, raw)]" fragment_root "[]" "[]"] assms
  by (auto simp: no_button_def fragment_root_def lit_def)

lemma parse_simple_Some:
  "parse_simple m = Some ms \<longleftrightarrow>
     (\<exists>raw. run (Data, [(fragment_root, [])]) m = Some (Data, [(fragment_root, raw)]) \<and>
            ms = merge_text raw)"
proof
  assume "parse_simple m = Some ms"
  then obtain e raw where r: "run (Data, [(fragment_root, [])]) m = Some (Data, [(e, raw)])"
    and ms: "ms = merge_text raw"
    by (auto simp: parse_simple_def split: option.splits tmode.splits list.splits prod.splits)
  from run_root[OF r] r ms
  show "\<exists>raw. run (Data, [(fragment_root, [])]) m = Some (Data, [(fragment_root, raw)]) \<and>
            ms = merge_text raw" by auto
next
  assume "\<exists>raw. run (Data, [(fragment_root, [])]) m = Some (Data, [(fragment_root, raw)]) \<and>
            ms = merge_text raw"
  then show "parse_simple m = Some ms" by (auto simp: parse_simple_def)
qed

lemma parse_template:
  assumes "list_all plain_char g" and "parse_simple m = Some ms"
  shows "parse_simple (toast_markup (g @ m)) = Some (template_tree (cons_text g ms))"
proof -
  from assms(2) obtain raw where
    r: "run (Data, [(fragment_root, [])]) m = Some (Data, [(fragment_root, raw)])"
    and ms: "ms = merge_text raw"
    by (auto simp: parse_simple_Some)
  show ?thesis
    unfolding parse_simple_Some
    using run_template[OF assms(1) r] merge_text_template[of g raw] ms by auto
qed

lemma parse_plain:
  assumes "list_all plain_char m"
  shows "parse_simple m = Some (cons_text m [])"
  using run_plain[OF assms, of fragment_root "[]" "[]"] merge_text_chars[of m "[]"]
  by (simp add: parse_simple_def)

lemma plain_glyphs:
  "list_all plain_char glyph_success" "list_all plain_char glyph_warning"
  "list_all plain_char glyph_danger" "list_all plain_char glyph_info"
  by (simp_all add: glyph_success_def glyph_warning_def glyph_danger_def glyph_info_def
      plain_char_def)

lemma conforming_subset_parser: "conforming subset_parser"
  by (simp add: conforming_def subset_parser_def)

lemma conforming_template:
  assumes "conforming h" and "list_all plain_char g" and "parse_simple m = Some ms"
  shows "h (toast_markup (g @ m)) = template_tree (cons_text g ms)"
  using assms(1) parse_template[OF assms(2,3)] by (simp add: conforming_def)

lemma parse_empty: "parse_simple [] = Some []"
  by (simp add: parse_simple_def)

lemma cons_text_plain: "g \<noteq> [] \<Longrightarrow> cons_text g (cons_text m []) = [Text (g @ m)]"
  by (cases m) simp_all

section \<open>Class lists of the created elements\<close>

lemma classList_container:
  "classList (container_element c) =
     [lit ''toast-container'', lit ''position-fixed'', lit ''top-0'', lit ''end-0'', lit ''p-3'']"
  by (simp add: classList_def container_element_def lit_def isAsciiWhitespace_def)

lemma classList_toast:
  "ty \<in> set categories \<Longrightarrow>
   classList (toast_element t ty) =
     [lit ''toast'', lit ''align-items-center'', lit ''text-white'', lit ''bg-'' @ ty, lit ''border-0'']"
  by (auto simp add: categories_def classList_def toast_element_def lit_def isAsciiWhitespace_def)

lemma container_matches: "matches [lit ''toast-container''] (container_element c)"
  by (simp add: matches_def contains_def classList_container)

lemma toast_not_container:
  "ty \<in> set categories \<Longrightarrow> \<not> matches [lit ''toast-container''] (toast_element t ty)"
  by (auto simp add: matches_def contains_def classList_toast) (auto simp: categories_def lit_def)

lemma toast_not_alert:
  "ty \<in> set categories \<Longrightarrow> \<not> contains (toast_element t ty) (lit ''alert'')"
  by (auto simp add: contains_def classList_toast) (auto simp: categories_def lit_def)

lemma container_not_alert: "\<not> contains (container_element c) (lit ''alert'')"
  by (simp add: contains_def classList_container) (simp add: lit_def)

lemma toast_is_toast: "ty \<in> set categories \<Longrightarrow> contains (toast_element t ty) (lit ''toast'')"
  by (simp add: contains_def classList_toast)

lemma container_not_toast: "\<not> contains (container_element c) (lit ''toast'')"
  by (simp add: contains_def classList_container) (simp add: lit_def)



section \<open>The effect of \<open>_showToast\<close>\<close>

lemma append_child_skip:
  "p \<notin> nid ` set (elems f) \<Longrightarrow> append_child p c (f @ g) = f @ append_child p c g"
proof (induction f rule: elems.induct)
  case (3 e cs ns)
  then have "p \<notin> nid ` set (elems cs)" by auto
  then have "append_child p c cs = cs" by (rule append_child_absent)
  with 3 show ?case by auto
qed simp_all

lemma wf_fresh: "well_formed w \<Longrightarrow> next_id w \<notin> nid ` set (all_elems w)"
  by (auto simp: well_formed_def list_all_iff)

lemma wf_doc_not_detached:
  "well_formed w \<Longrightarrow> i \<in> nid ` set (elems (document w)) \<Longrightarrow> i \<notin> nid ` set (elems (detached w))"
  by (auto simp: well_formed_def all_elems_def)

lemma querySelector_Some:
  "querySelector sel w = Some c \<Longrightarrow> c \<in> nid ` set (elems (document w))"
proof -
  assume "querySelector sel w = Some c"
  then obtain e es where "filter (matches sel) (elems (document w)) = e # es" and "nid e = c"
    by (auto simp: querySelector_def querySelectorAll_def split: list.splits)
  then have "e \<in> set (filter (matches sel) (elems (document w)))" by simp
  then have "e \<in> set (elems (document w))" by simp
  with \<open>nid e = c\<close> show ?thesis by auto
qed

lemma after_activate: "after (activate t w) = shown_by t w"
  by (cases "bootstrap w") (simp_all add: activate_def shown_by_def)

lemma returned_activate: "returned (activate t w) \<longleftrightarrow> bootstrap w = HasToast"
  by (cases "bootstrap w") (simp_all add: activate_def)

lemma weight_new_toast: "weight (new_toast h t ty m) = Suc (length (elems (h (toast_markup m))))"
  by (simp add: weight_def new_toast_def)

lemma set_innerHTML_toast:
  "next_id w = Suc t \<Longrightarrow>
   set_innerHTML (toast_markup m) (toast_element t ty) w =
     (new_toast (html_parse w) t ty m,
      w\<lparr>next_id := t + weight (new_toast (html_parse w) t ty m)\<rparr>)"
  by (simp add: set_innerHTML_def new_toast_def weight_def)

lemma showToast_existing:
  assumes "well_formed w" and "querySelector [lit ''toast-container''] w = Some c"
  shows "showToast ty m w =
           activate (next_id w)
             (w\<lparr>created := created w @ [next_id w],
                next_id := next_id w + weight (new_toast (html_parse w) (next_id w) ty m),
                body := map_option (append_child c (new_toast (html_parse w) (next_id w) ty m))
                          (body w)\<rparr>)"
proof -
  from assms have "c \<notin> nid ` set (elems (detached w))"
    using querySelector_Some wf_doc_not_detached by blast
  then have "append_child c (new_toast (html_parse w) (next_id w) ty m) (detached w) = detached w"
    by (rule append_child_absent)
  with assms(2) show ?thesis
    by (simp add: showToast_def toast_container_def createElement_def appendChild_def
        set_innerHTML_toast)
qed

lemma showToast_fresh:
  assumes "well_formed w" and "querySelector [lit ''toast-container''] w = None" and "body w = Some ns"
  shows "showToast ty m w =
           activate (Suc (next_id w))
             (w\<lparr>created := created w @ [next_id w, Suc (next_id w)],
                next_id := Suc (next_id w) +
                  weight (new_toast (html_parse w) (Suc (next_id w)) ty m),
                body := Some (ns @ [Element (container_element (next_id w))
                                        [new_toast (html_parse w) (Suc (next_id w)) ty m]])\<rparr>)"
proof -
  let ?c = "next_id w"
  let ?t = "new_toast (html_parse w) (Suc ?c) ty m"
  from assms have fresh: "?c \<notin> nid ` set (elems ns)" "?c \<notin> nid ` set (elems (detached w))"
    using wf_fresh[of w] by (auto simp: all_elems_def document_def)
  have 1: "append_child ?c ?t (detached w) = detached w"
    using fresh(2) by (rule append_child_absent)
  have 2: "append_child ?c ?t (ns @ [Element (container_element ?c) []])
             = ns @ [Element (container_element ?c) [?t]]"
    using fresh(1) by (simp add: append_child_skip container_element_def)
  from assms(2,3) 1 2 show ?thesis
    by (simp add: showToast_def toast_container_def createElement_def appendChild_def
        set_innerHTML_toast)
qed

lemma showToast_no_body:
  assumes "body w = None"
  shows "showToast ty m w =
           Inl (TypeError, w\<lparr>created := created w @ [next_id w], next_id := Suc (next_id w)\<rparr>)"
  using assms
  by (simp add: showToast_def toast_container_def createElement_def querySelector_def
      querySelectorAll_def document_def)

lemma entry_point_unfold:
  "(sev, glyph, f) \<in> set entry_points \<Longrightarrow>
   sev \<in> set categories \<and> f m w = this_showToast sev (glyph @ m) w"
  by (auto simp: entry_points_def categories_def showSuccess_def showWarning_def
      showDanger_def showInfo_def)

lemma this_showToast_available:
  "available (lit ''_showToast'') w \<Longrightarrow> this_showToast ty m w = showToast ty m w"
  by (auto simp: available_def this_showToast_def split: option.splits)

lemma showToast_activate:
  assumes "body w \<noteq> None"
  shows "\<exists>t w4. showToast ty m w = activate t w4 \<and> bootstrap w4 = bootstrap w"
proof (cases "querySelector [lit ''toast-container''] w")
  case None
  from assms obtain ns where "body w = Some ns" by auto
  with None show ?thesis
    unfolding showToast_def toast_container_def createElement_def appendChild_def
      set_innerHTML_def
    by (intro exI conjI) (simp add: Let_def, simp)
next
  case (Some c)
  then show ?thesis
    unfolding showToast_def toast_container_def createElement_def appendChild_def
      set_innerHTML_def
    by (intro exI conjI) (simp add: Let_def, simp)
qed


lemma document_shown_by [simp]: "document (shown_by t w) = document w"
  by (simp add: shown_by_def document_def)

lemma document_body_update [simp]:
  "document (w\<lparr>body := b\<rparr>) = (case b of None \<Rightarrow> [] | Some ns \<Rightarrow> ns)"
  by (simp add: document_def)

lemma document_next_id_update [simp]: "document (w\<lparr>next_id := n\<rparr>) = document w"
  by (simp add: document_def)

lemma document_created_update [simp]: "document (w\<lparr>created := n\<rparr>) = document w"
  by (simp add: document_def)

lemma document_body: "body w = Some ns \<Longrightarrow> document w = ns"
  by (simp add: document_def)

lemma nid_container [simp]: "nid (container_element c) = c"
  by (simp add: container_element_def)

lemma nid_toast [simp]: "nid (toast_element t ty) = t"
  by (simp add: toast_element_def)

lemma detached_shown_by [simp]: "detached (shown_by t w) = detached w"
  by (simp add: shown_by_def)

lemma next_id_shown_by [simp]: "next_id (shown_by t w) = next_id w"
  by (simp add: shown_by_def)

lemma elems_new_toast:
  "elems [new_toast h t ty m] = toast_element t ty # elems (number (Suc t) (h (toast_markup m)))"
  by (simp add: new_toast_def)

lemma new_toast_bounds:
  "x \<in> set (elems [new_toast h t ty m]) \<Longrightarrow> t \<le> nid x \<and> nid x < t + weight (new_toast h t ty m)"
  using number_bounds[of x "Suc t" "h (toast_markup m)"]
  by (auto simp: elems_new_toast weight_new_toast)

lemma new_toast_distinct: "distinct (map nid (elems [new_toast h t ty m]))"
  using number_bounds[of _ "Suc t" "h (toast_markup m)"] number_distinct[of "Suc t" "h (toast_markup m)"]
  by (fastforce simp: elems_new_toast)

lemma wf_distinct_doc: "well_formed w \<Longrightarrow> distinct (map nid (elems (document w)))"
  by (simp add: well_formed_def all_elems_def)

text \<open>The window after \<open>_showToast\<close>, whatever the outcome.\<close>

lemma after_showToast_existing:
  assumes "well_formed w" and "querySelector [lit ''toast-container''] w = Some c"
  shows "after (showToast ty m w) =
           shown_by (next_id w)
             (w\<lparr>created := created w @ [next_id w],
                next_id := next_id w + weight (new_toast (html_parse w) (next_id w) ty m),
                body := map_option (append_child c (new_toast (html_parse w) (next_id w) ty m))
                          (body w)\<rparr>)"
  by (simp add: showToast_existing[OF assms] after_activate)

lemma after_showToast_fresh:
  assumes "well_formed w" and "querySelector [lit ''toast-container''] w = None" and "body w = Some ns"
  shows "after (showToast ty m w) =
           shown_by (Suc (next_id w))
             (w\<lparr>created := created w @ [next_id w, Suc (next_id w)],
                next_id := Suc (next_id w) +
                  weight (new_toast (html_parse w) (Suc (next_id w)) ty m),
                body := Some (ns @ [Element (container_element (next_id w))
                                        [new_toast (html_parse w) (Suc (next_id w)) ty m]])\<rparr>)"
  by (simp add: showToast_fresh[OF assms] after_activate)

lemma document_showToast:
  assumes "well_formed w" and "body w \<noteq> None"
  shows "document (after (showToast ty m w)) =
           (case querySelector [lit ''toast-container''] w of
              Some c \<Rightarrow> append_child c (new_toast (html_parse w) (next_id w) ty m) (document w)
            | None \<Rightarrow> document w @ [Element (container_element (next_id w))
                                        [new_toast (html_parse w) (Suc (next_id w)) ty m]])"
proof (cases "querySelector [lit ''toast-container''] w")
  case None
  from assms obtain ns where "body w = Some ns" by auto
  with None assms show ?thesis
    by (simp add: after_showToast_fresh document_body)
next
  case (Some c)
  from assms obtain ns where "body w = Some ns" by auto
  with Some assms show ?thesis
    by (simp add: after_showToast_existing document_body)
qed

lemma querySelector_None:
  "querySelector sel w = None \<longleftrightarrow> filter (matches sel) (elems (document w)) = []"
  by (simp add: querySelector_def querySelectorAll_def split: list.splits)

lemma showToast_effect:
  fixes m :: jsstring and ty :: jsstring
  assumes "well_formed w" and "body w \<noteq> None"
  defines "w' \<equiv> after (showToast ty m w)"
  shows "querySelector [lit ''toast-container''] w' = Some (container_id w)"
    and "children_in (container_id w) w' =
           children_in (container_id w) w @ [new_toast (html_parse w) (toast_id w) ty m]"
    and "mset (elems (document w')) =
           mset (elems (document w)) + mset (elems [new_toast (html_parse w) (toast_id w) ty m]) +
           (if querySelector [lit ''toast-container''] w = None
            then {#container_element (container_id w)#} else {#})"
proof -
  show "querySelector [lit ''toast-container''] w' = Some (container_id w)"
  proof (cases "querySelector [lit ''toast-container''] w")
    case None
    then have "filter (matches [lit ''toast-container'']) (elems (document w)) = []"
      by (simp add: querySelector_None)
    with None assms show ?thesis
      by (simp add: w'_def document_showToast querySelector_def querySelectorAll_def
          elems_append container_id_def container_matches)
  next
    case (Some c)
    then obtain e es where f: "filter (matches [lit ''toast-container'']) (elems (document w)) = e # es"
      and e: "nid e = c"
      by (auto simp: querySelector_def querySelectorAll_def split: list.splits)
    from append_child_first[OF wf_distinct_doc[OF assms(1)] f e]
    obtain es' where "filter (matches [lit ''toast-container''])
        (elems (append_child c (new_toast (html_parse w) (next_id w) ty m) (document w))) = e # es'"
      by blast
    with Some assms e show ?thesis
      by (simp add: w'_def document_showToast querySelector_def querySelectorAll_def
          container_id_def)
  qed
  show "children_in (container_id w) w' =
           children_in (container_id w) w @ [new_toast (html_parse w) (toast_id w) ty m]"
  proof (cases "querySelector [lit ''toast-container''] w")
    case None
    have "next_id w \<notin> nid ` set (elems (document w))"
      using wf_fresh[OF assms(1)] by (auto simp add: all_elems_def)
    then have "find_node (next_id w) (document w) = None"
      by (simp add: find_node_None)
    with None assms show ?thesis
      by (simp add: w'_def document_showToast children_in_def container_id_def toast_id_def
          find_node_append)
  next
    case (Some c)
    then have "c \<in> nid ` set (elems (document w))" by (rule querySelector_Some)
    then obtain e cs where "find_node c (document w) = Some (e, cs)"
      using find_node_None[of c "document w"] by (cases "find_node c (document w)") auto
    with Some assms show ?thesis
      by (simp add: w'_def document_showToast children_in_def container_id_def toast_id_def
          append_child_find)
  qed
  show "mset (elems (document w')) =
           mset (elems (document w)) + mset (elems [new_toast (html_parse w) (toast_id w) ty m]) +
           (if querySelector [lit ''toast-container''] w = None
            then {#container_element (container_id w)#} else {#})"
  proof (cases "querySelector [lit ''toast-container''] w")
    case None
    with assms show ?thesis
      by (simp add: w'_def document_showToast elems_append container_id_def toast_id_def)
  next
    case (Some c)
    then have "c \<in> nid ` set (elems (document w))" by (rule querySelector_Some)
    with Some assms show ?thesis
      by (simp add: w'_def document_showToast container_id_def toast_id_def
          append_child_mset wf_distinct_doc)
  qed
qed

lemma entry_point_after:
  assumes "(sev, glyph, f) \<in> set entry_points" and "available (lit ''_showToast'') w"
  shows "f m w = showToast sev (glyph @ m) w" and "sev \<in> set categories"
  using assms by (simp_all add: entry_point_unfold this_showToast_available)

lemma returned_showToast:
  assumes "body w \<noteq> None"
  shows "returned (showToast ty m w) \<longleftrightarrow> bootstrap w = HasToast"
proof -
  obtain t w4 where "showToast ty m w = activate t w4" and "bootstrap w4 = bootstrap w"
    using showToast_activate[OF assms] by blast
  then show ?thesis by (simp add: returned_activate)
qed

lemma length_filter_mset: "length (filter P xs) = size (filter_mset P (mset xs))"
  by (metis mset_filter size_mset)

lemma toast_has_bg:
  "ty \<in> set categories \<Longrightarrow> contains (toast_element t ty) (lit ''bg-'' @ ty)"
  by (simp add: contains_def classList_toast)

lemma loaded_page_facts:
  "well_formed loaded_page" "body loaded_page = Some []" "document loaded_page = []"
  "available (lit ''_showToast'') loaded_page" "bootstrap loaded_page = HasToast"
  "container_id loaded_page = 0" "toast_id loaded_page = Suc 0"
  "querySelectorAll sel loaded_page = []" "children_in c loaded_page = []"
  "html_parse loaded_page = subset_parser"
  by (simp_all add: loaded_page_def script_load_def empty_page_def well_formed_def all_elems_def
      document_def available_def container_id_def toast_id_def querySelector_def
      querySelectorAll_def children_in_def)


section \<open>What \<open>_showToast\<close> leaves unchanged; well-formedness is kept\<close>

lemma fields_shown_by [simp]:
  "body (shown_by t w) = body w" "bootstrap (shown_by t w) = bootstrap w"
  "BudgeteerNotifications (shown_by t w) = BudgeteerNotifications w"
  "html_parse (shown_by t w) = html_parse w" "created (shown_by t w) = created w"
  "shown (shown_by t w) = (if bootstrap w = HasToast then shown w @ [t] else shown w)"
  "hidden_listeners (shown_by t w) =
     (if bootstrap w = HasToast then hidden_listeners w @ [t] else hidden_listeners w)"
  by (simp_all add: shown_by_def)

lemma after_showToast:
  assumes "well_formed w"
  shows "after (showToast ty m w) =
           (case body w of
              None \<Rightarrow> w\<lparr>created := created w @ [next_id w], next_id := Suc (next_id w)\<rparr>
            | Some ns \<Rightarrow>
                shown_by (toast_id w)
                  (w\<lparr>created := created w @
                        (case querySelector [lit ''toast-container''] w of
                           Some c \<Rightarrow> [] | None \<Rightarrow> [container_id w]) @ [toast_id w],
                     next_id := toast_id w + weight (new_toast (html_parse w) (toast_id w) ty m),
                     body := Some (case querySelector [lit ''toast-container''] w of
                               Some c \<Rightarrow>
                                 append_child c (new_toast (html_parse w) (toast_id w) ty m) ns
                             | None \<Rightarrow> ns @ [Element (container_element (container_id w))
                                     [new_toast (html_parse w) (toast_id w) ty m]])\<rparr>))"
proof (cases "body w")
  case None
  then show ?thesis by (simp add: showToast_no_body)
next
  case (Some ns)
  show ?thesis
  proof (cases "querySelector [lit ''toast-container''] w")
    case None
    with Some assms show ?thesis
      by (simp add: after_showToast_fresh toast_id_def container_id_def)
  next
    case c: (Some c)
    with Some assms show ?thesis
      by (simp add: after_showToast_existing toast_id_def container_id_def)
  qed
qed

lemma showToast_frame:
  assumes "well_formed w"
  shows "detached (after (showToast ty m w)) = detached w"
    and "bootstrap (after (showToast ty m w)) = bootstrap w"
    and "BudgeteerNotifications (after (showToast ty m w)) = BudgeteerNotifications w"
    and "html_parse (after (showToast ty m w)) = html_parse w"
    and "next_id w \<le> next_id (after (showToast ty m w))"
    and "body w \<noteq> None \<Longrightarrow> body (after (showToast ty m w)) \<noteq> None"
    and "body w \<noteq> None \<Longrightarrow> next_id (after (showToast ty m w)) =
           toast_id w + weight (new_toast (html_parse w) (toast_id w) ty m)"
    and "body w \<noteq> None \<Longrightarrow> shown (after (showToast ty m w)) =
           (if bootstrap w = HasToast then shown w @ [toast_id w] else shown w)"
    and "body w \<noteq> None \<Longrightarrow> hidden_listeners (after (showToast ty m w)) =
           (if bootstrap w = HasToast then hidden_listeners w @ [toast_id w]
            else hidden_listeners w)"
    and "body w \<noteq> None \<Longrightarrow> created (after (showToast ty m w)) =
           created w @ (case querySelector [lit ''toast-container''] w of
                          Some c \<Rightarrow> [] | None \<Rightarrow> [container_id w]) @ [toast_id w]"
    and "length (shown (after (showToast ty m w))) \<le> Suc (length (shown w))"
  by (auto simp add: after_showToast[OF assms] toast_id_def split: option.splits)

lemma showToast_doc_mset:
  assumes "well_formed w" and "body w \<noteq> None"
  shows "mset (elems (document (after (showToast ty m w)))) =
           mset (elems (document w)) + mset (elems [new_toast (html_parse w) (toast_id w) ty m]) +
           (if querySelector [lit ''toast-container''] w = None
            then {#container_element (container_id w)#} else {#})"
  using assms by (rule showToast_effect(3))

lemma distinct_map_mset: "mset xs = mset ys \<Longrightarrow> distinct (map f xs) \<longleftrightarrow> distinct (map f ys)"
  by (metis mset_eq_imp_distinct_iff mset_map)

lemma toast_id_fresh:
  "next_id w \<le> toast_id w"
  "querySelector [lit ''toast-container''] w = None \<Longrightarrow>
     container_id w = next_id w \<and> toast_id w = Suc (next_id w)"
  "querySelector [lit ''toast-container''] w = Some c \<Longrightarrow>
     container_id w = c \<and> toast_id w = next_id w"
  by (simp_all add: toast_id_def container_id_def split: option.splits)

lemma well_formed_showToast:
  assumes "well_formed w"
  shows "well_formed (after (showToast ty m w))"
proof (cases "body w")
  case None
  with assms show ?thesis
    by (auto simp: showToast_no_body well_formed_def all_elems_def list_all_iff document_def)
next
  case (Some ns)
  let ?w' = "after (showToast ty m w)"
  let ?toast = "new_toast (html_parse w) (toast_id w) ty m"
  define new where "new = elems [?toast] @
              (if querySelector [lit ''toast-container''] w = None
               then [container_element (container_id w)] else [])"
  from Some have b: "body w \<noteq> None" by simp
  have "mset (all_elems ?w') = mset (all_elems w @ new)"
    by (simp add: new_def all_elems_def showToast_doc_mset[OF assms b] showToast_frame(1)[OF assms])
  then have d: "distinct (map nid (all_elems ?w')) \<longleftrightarrow> distinct (map nid (all_elems w @ new))"
    and s: "set (all_elems ?w') = set (all_elems w @ new)"
    by (rule distinct_map_mset, rule mset_eq_setD)
  have old: "\<forall>e\<in>set (all_elems w). nid e < next_id w" and dist: "distinct (map nid (all_elems w))"
    using assms by (simp_all add: well_formed_def list_all_iff)
  note tb = new_toast_bounds[of _ "html_parse w" "toast_id w" ty m]
  have n: "next_id ?w' = toast_id w + weight ?toast"
    using assms b by (rule showToast_frame(7))
  have w0: "0 < weight ?toast" by (simp add: weight_new_toast)
  have "container_id w \<notin> nid ` set (elems [?toast])"
    if "querySelector [lit ''toast-container''] w = None"
  proof
    assume "container_id w \<in> nid ` set (elems [?toast])"
    then obtain x where "x \<in> set (elems [?toast])" and "nid x = container_id w" by auto
    with tb[of x] that show False by (simp add: toast_id_fresh)
  qed
  then have dn: "distinct (map nid new)"
    using new_toast_distinct[of "html_parse w" "toast_id w" ty m] unfolding new_def
    by (cases "querySelector [lit ''toast-container''] w") simp_all
  have nb: "next_id w \<le> nid x \<and> nid x < toast_id w + weight ?toast" if "x \<in> set new" for x
  proof (cases "x \<in> set (elems [?toast])")
    case True
    with tb[of x] toast_id_fresh(1)[of w] show ?thesis by simp
  next
    case False
    with that have "querySelector [lit ''toast-container''] w = None"
      and "x = container_element (container_id w)"
      unfolding new_def by (simp_all split: if_splits)
    then show ?thesis using w0 by (simp add: toast_id_fresh)
  qed
  have disj: "nid ` set (all_elems w) \<inter> nid ` set new = {}"
  proof (rule ccontr)
    assume "nid ` set (all_elems w) \<inter> nid ` set new \<noteq> {}"
    then obtain x y where "x \<in> set (all_elems w)" "y \<in> set new" "nid x = nid y" by auto
    with old nb[of y] show False by auto
  qed
  have 1: "distinct (map nid (all_elems w @ new))"
    using dist dn disj by simp
  have 2: "\<forall>e\<in>set (all_elems w @ new). nid e < next_id ?w'"
  proof
    fix e assume "e \<in> set (all_elems w @ new)"
    then consider "e \<in> set (all_elems w)" | "e \<in> set new" by auto
    then show "nid e < next_id ?w'"
    proof cases
      case 1
      with old have "nid e < next_id w" by simp
      with toast_id_fresh(1)[of w] show ?thesis unfolding n by simp
    next
      case 2
      from nb[OF this] show ?thesis unfolding n by simp
    qed
  qed
  from 1 2 show ?thesis
    using d s by (simp add: well_formed_def list_all_iff)
qed

lemma history_showToast:
  assumes "well_formed w" and "history_ok w"
  shows "history_ok (after (showToast ty m w))"
proof (cases "body w")
  case None
  with assms(2) show ?thesis
    by (auto simp: showToast_no_body history_ok_def list_all_iff)
next
  case (Some ns)
  let ?w' = "after (showToast ty m w)"
  let ?toast = "new_toast (html_parse w) (toast_id w) ty m"
  from Some have b: "body w \<noteq> None" by simp
  have cr: "\<forall>i\<in>set (created w). i < next_id w"
    using assms(2) by (simp add: history_ok_def list_all_iff)
  have n: "next_id ?w' = toast_id w + weight ?toast"
    using assms(1) b by (rule showToast_frame(7))
  have w0: "0 < weight ?toast" by (simp add: weight_new_toast)
  have 3: "\<forall>i\<in>set (created ?w'). i < next_id ?w'"
  proof
    fix i assume "i \<in> set (created ?w')"
    then consider "i \<in> set (created w)" | "i = toast_id w"
      | "i = container_id w" "querySelector [lit ''toast-container''] w = None"
      unfolding showToast_frame(10)[OF assms(1) b] by (auto split: option.splits)
    then show "i < next_id ?w'"
    proof cases
      case 1
      with cr have "i < next_id w" by simp
      with toast_id_fresh(1)[of w] show ?thesis unfolding n by simp
    next
      case 2
      with w0 show ?thesis unfolding n by simp
    next
      case 3
      with w0 show ?thesis unfolding n by (simp add: toast_id_fresh)
    qed
  qed
  from 3 show ?thesis by (simp add: history_ok_def list_all_iff)
qed


section \<open>Sequences of show calls\<close>

lemma available_after_showToast:
  "well_formed w \<Longrightarrow> available name (after (showToast ty m w)) = available name w"
  by (simp add: available_def showToast_frame(3))

lemma show_all_existing:
  assumes "well_formed w"
    and "body w = Some (ns @ [Element (container_element c) ts])"
    and "filter (matches [lit ''toast-container'']) (elems ns) = []"
    and "available (lit ''_showToast'') w"
    and "\<forall>x\<in>set calls. fst x \<in> set entry_points"
  shows "body (show_all calls w) =
           Some (ns @ [Element (container_element c)
                         (ts @ toasts_of (html_parse w) calls (next_id w))])"
  using assms
proof (induction calls w arbitrary: ts rule: show_all.induct)
  case (1 w)
  then show ?case by simp
next
  case (2 sev glyph f m calls w)
  let ?w' = "after (f m w)"
  let ?toast = "new_toast (html_parse w) (next_id w) sev (glyph @ m)"
  from 2 have ep: "(sev, glyph, f) \<in> set entry_points" by simp
  have f: "f m w = showToast sev (glyph @ m) w"
    using entry_point_after[OF ep "2.prems"(4)] by simp
  have doc: "document w = ns @ [Element (container_element c) ts]"
    using "2.prems"(2) by (rule document_body)
  have q: "querySelector [lit ''toast-container''] w = Some c"
    using "2.prems"(3)
    by (simp add: querySelector_def querySelectorAll_def doc elems_append container_matches)
  have "distinct (map nid (elems (document w)))"
    using "2.prems"(1) by (rule wf_distinct_doc)
  then have "c \<notin> nid ` set (elems ns)"
    by (auto simp: doc elems_append)
  then have ap: "append_child c ?toast (ns @ [Element (container_element c) ts]) =
                   ns @ [Element (container_element c) (ts @ [?toast])]"
    by (simp add: append_child_skip)
  have b: "body ?w' = Some (ns @ [Element (container_element c) (ts @ [?toast])])"
    using "2.prems"(1,2) q ap by (simp add: f after_showToast toast_id_def)
  have n: "next_id ?w' = next_id w + weight ?toast"
    using "2.prems"(1,2) q by (simp add: f showToast_frame(7) toast_id_def)
  have h: "html_parse ?w' = html_parse w"
    using "2.prems"(1) by (simp add: f showToast_frame(4))
  have "body (show_all calls ?w') =
          Some (ns @ [Element (container_element c)
                        ((ts @ [?toast]) @ toasts_of (html_parse ?w') calls (next_id ?w'))])"
    using "2.prems" b
    by (intro "2.IH") (simp_all add: f well_formed_showToast available_after_showToast)
  then show ?case by (simp add: n h)
qed

lemma show_all_reuses:
  assumes "well_formed w" and "body w \<noteq> None" and "available (lit ''_showToast'') w"
    and "\<forall>x\<in>set calls. fst x \<in> set entry_points"
    and "querySelector [lit ''toast-container''] w = Some c"
  shows "querySelector [lit ''toast-container''] (show_all calls w) = Some c \<and>
         children_in c (show_all calls w) =
           children_in c w @ toasts_of (html_parse w) calls (next_id w)"
  using assms
proof (induction calls w rule: show_all.induct)
  case (1 w)
  then show ?case by simp
next
  case (2 sev glyph f m calls w)
  let ?w' = "after (f m w)"
  let ?toast = "new_toast (html_parse w) (next_id w) sev (glyph @ m)"
  from 2 have ep: "(sev, glyph, f) \<in> set entry_points" by simp
  note f = entry_point_after[OF ep "2.prems"(3)]
  note q = "2.prems"(5)
  have c: "container_id w = c" "toast_id w = next_id w"
    using q by (simp_all add: container_id_def toast_id_def)
  note eff = showToast_effect(1,2)[OF "2.prems"(1,2), of sev "glyph @ m"]
  have q': "querySelector [lit ''toast-container''] ?w' = Some c"
    using eff(1) by (simp add: f(1) c)
  have ch: "children_in c ?w' = children_in c w @ [?toast]"
    using eff(2) by (simp add: f(1) c)
  have n: "next_id ?w' = next_id w + weight ?toast"
    using "2.prems"(1,2) by (simp add: f(1) showToast_frame(7) c)
  have h: "html_parse ?w' = html_parse w"
    using "2.prems"(1) by (simp add: f(1) showToast_frame(4))
  have "querySelector [lit ''toast-container''] (show_all calls ?w') = Some c \<and>
        children_in c (show_all calls ?w') =
          children_in c ?w' @ toasts_of (html_parse ?w') calls (next_id ?w')"
    using "2.prems" q'
    by (intro "2.IH")
      (simp_all add: f(1) well_formed_showToast available_after_showToast showToast_frame(6))
  then show ?case by (simp add: ch n h)
qed


section \<open>Removing a node\<close>

lemma elems_Cons:
  "elems (n # ns) = (case n of Element e cs \<Rightarrow> e # elems cs | _ \<Rightarrow> []) @ elems ns"
  by (cases n) simp_all

lemma del_below_absent:
  "i \<notin> nid ` set (elems (concat (map childNodes ds))) \<Longrightarrow> map (del_below i) ds = ds"
proof (induction ds)
  case (Cons n ds)
  show ?case
  proof (cases n)
    case (Element e cs)
    with Cons.prems have "i \<notin> nid ` set (elems cs)"
      and "i \<notin> nid ` set (elems (concat (map childNodes ds)))"
      by (auto simp: elems_append)
    with Cons.IH Element show ?thesis by (simp add: del_absent)
  qed (use Cons in simp_all)
qed simp

lemma children_subset:
  "set (elems (concat (map childNodes ds))) \<subseteq> set (elems ds)"
proof (induction ds)
  case (Cons n ds)
  then show ?case by (cases n) (auto simp: elems_append)
qed simp

lemma children_del_below:
  "concat (map childNodes (map (del_below i) ds)) = del i (concat (map childNodes ds))"
proof (induction ds)
  case (Cons n ds)
  have "del i (xs @ ys) = del i xs @ del i ys" for xs ys
    by (induction xs rule: elems.induct) simp_all
  with Cons show ?case by (cases n) simp_all
qed simp

lemma del_below_mset:
  "distinct (map nid (elems ds)) \<Longrightarrow>
   find_node i (concat (map childNodes ds)) = Some (e, cs) \<Longrightarrow>
   mset (elems ds) = mset (elems (map (del_below i) ds)) + mset (e # elems cs)"
proof (induction ds)
  case (Cons n ds)
  show ?case
  proof (cases n)
    case (Element e' cs')
    show ?thesis
    proof (cases "find_node i cs'")
      case None
      then have "del i cs' = cs'" by (simp add: find_node_None del_absent)
      with Cons Element None show ?thesis by (simp add: find_node_append)
    next
      case (Some r)
      with Cons.prems Element have r: "find_node i cs' = Some (e, cs)"
        by (simp add: find_node_append)
      then have "i \<in> nid ` set (elems cs')" using find_node_None[of i cs'] by simp
      with Cons.prems(1) Element have "i \<notin> nid ` set (elems ds)" by auto
      then have "i \<notin> nid ` set (elems (concat (map childNodes ds)))"
        using children_subset[of ds] by auto
      then have "map (del_below i) ds = ds" by (rule del_below_absent)
      moreover have "mset (elems cs') = mset (elems (del i cs')) + mset (e # elems cs)"
        using Cons.prems(1) Element r by (intro del_mset) simp_all
      ultimately show ?thesis using Element by simp
    qed
  qed (use Cons in simp_all)
qed simp

lemma document_remove:
  "document (remove i w) = del i (document w)"
proof (cases "find_node i (document w)")
  case None
  then have "del i (document w) = document w" by (simp add: find_node_None del_absent)
  with None show ?thesis
    by (simp add: remove_def document_def split: option.splits)
next
  case (Some r)
  then show ?thesis
    by (cases r) (auto simp add: remove_def document_def split: option.splits)
qed

lemma remove_frame [simp]:
  "next_id (remove i w) = next_id w" "bootstrap (remove i w) = bootstrap w"
  "BudgeteerNotifications (remove i w) = BudgeteerNotifications w"
  "html_parse (remove i w) = html_parse w" "created (remove i w) = created w" "shown (remove i w) = shown w"
  "hidden_listeners (remove i w) = hidden_listeners w"
  "(body (remove i w) = None) = (body w = None)"
  by (simp_all add: remove_def split: option.splits)

lemma remove_all_mset:
  assumes "well_formed w"
  shows "mset (all_elems (remove i w)) = mset (all_elems w)"
proof (cases "find_node i (document w)")
  case (Some r)
  obtain e cs where r: "r = (e, cs)" by (cases r)
  have "mset (elems (document w)) = mset (elems (del i (document w))) + mset (e # elems cs)"
    using assms Some r by (intro del_mset) (simp_all add: wf_distinct_doc)
  moreover have "detached (remove i w) = Element e cs # detached w"
    using Some r by (simp add: remove_def)
  ultimately show ?thesis
    by (simp add: all_elems_def document_remove)
next
  case None
  then have doc: "del i (document w) = document w" by (simp add: find_node_None del_absent)
  show ?thesis
  proof (cases "find_node i (concat (map childNodes (detached w)))")
    case N2: None
    with None show ?thesis by (simp add: remove_def)
  next
    case (Some r)
    obtain e cs where r: "r = (e, cs)" by (cases r)
    have "distinct (map nid (elems (detached w)))"
      using assms by (simp add: well_formed_def all_elems_def)
    then have "mset (elems (detached w)) =
           mset (elems (map (del_below i) (detached w))) + mset (e # elems cs)"
      using Some r by (intro del_below_mset) simp_all
    moreover have "detached (remove i w) = Element e cs # map (del_below i) (detached w)"
      using None Some r by (simp add: remove_def)
    ultimately show ?thesis
      by (simp add: all_elems_def document_remove doc)
  qed
qed

lemma well_formed_remove:
  assumes "well_formed w"
  shows "well_formed (remove i w)"
proof -
  have m: "mset (all_elems (remove i w)) = mset (all_elems w)"
    using assms by (rule remove_all_mset)
  then have "set (all_elems (remove i w)) = set (all_elems w)" by (rule mset_eq_setD)
  moreover have "distinct (map nid (all_elems (remove i w))) = distinct (map nid (all_elems w))"
    using m by (rule distinct_map_mset)
  ultimately show ?thesis using assms by (simp add: well_formed_def list_all_iff)
qed

lemma remove_not_attached:
  assumes "well_formed w"
  shows "\<not> attached i (remove i w)"
proof (cases "find_node i (document w)")
  case (Some r)
  obtain e cs where r: "r = (e, cs)" by (cases r)
  with Some have e: "nid e = i" "e \<in> set (elems (document w))"
    "set (elems cs) \<subseteq> set (elems (document w))"
    using find_node_Some[of i "document w" e cs] by auto
  have d: "detached (remove i w) = Element e cs # detached w"
    using Some r by (simp add: remove_def)
  have dist: "distinct (map nid (elems (document w) @ elems (detached w)))"
    using assms by (simp add: well_formed_def all_elems_def)
  have m: "mset (elems (document w)) = mset (elems (del i (document w))) + mset (e # elems cs)"
    using assms Some r by (intro del_mset) (simp_all add: wf_distinct_doc)
  have "distinct (map nid (e # elems cs))"
  proof -
    have "distinct (map nid (elems (document w)))" using dist by simp
    then have "distinct (map nid (elems (del i (document w)) @ (e # elems cs)))"
      using m distinct_map_mset[of "elems (document w)" "elems (del i (document w)) @ (e # elems cs)" nid]
      by simp
    then show ?thesis by simp
  qed
  then have 1: "i \<notin> nid ` set (elems cs)" using e(1) by auto
  have "i \<notin> nid ` set (elems (detached w))"
    using dist e(1,2) by auto
  then have 2: "i \<notin> nid ` set (elems (concat (map childNodes (detached w))))"
    using children_subset[of "detached w"] by auto
  show ?thesis
    using 1 2 del_gone[of i "document w"]
    by (auto simp add: attached_def document_remove d elems_append)
next
  case None
  then have doc: "i \<notin> nid ` set (elems (document (remove i w)))"
    using del_gone[of i "document w"] by (simp add: document_remove)
  show ?thesis
  proof (cases "find_node i (concat (map childNodes (detached w)))")
    case N2: None
    with None have "remove i w = w" by (simp add: remove_def)
    with None N2 show ?thesis by (simp add: attached_def find_node_None)
  next
    case (Some r)
    obtain e cs where r: "r = (e, cs)" by (cases r)
    have d: "detached (remove i w) = Element e cs # map (del_below i) (detached w)"
      using None Some r by (simp add: remove_def)
    have dd: "distinct (map nid (elems (detached w)))"
      using assms by (simp add: well_formed_def all_elems_def)
    then have m: "mset (elems (detached w)) =
           mset (elems (map (del_below i) (detached w))) + mset (e # elems cs)"
      using Some r by (intro del_below_mset) simp_all
    have "distinct (map nid (elems (map (del_below i) (detached w)) @ (e # elems cs)))"
      using dd m distinct_map_mset[of "elems (detached w)"
          "elems (map (del_below i) (detached w)) @ (e # elems cs)" nid]
      by simp
    moreover have "nid e = i" using Some r find_node_Some by blast
    ultimately have 1: "i \<notin> nid ` set (elems cs)" by auto
    have 2: "i \<notin> nid ` set (elems (concat (map childNodes (map (del_below i) (detached w)))))"
      unfolding children_del_below by (rule del_gone)
    show ?thesis
      using doc 1 2
      by (auto simp add: attached_def d elems_append simp del: map_map)
  qed
qed

lemma remove_unattached: "\<not> attached i w \<Longrightarrow> remove i w = w"
  by (simp add: attached_def remove_def find_node_None[symmetric])

lemma remove_idem: "well_formed w \<Longrightarrow> remove i (remove i w) = remove i w"
  by (simp add: remove_unattached remove_not_attached)

lemma loaded_page_more:
  "detached loaded_page = []" "next_id loaded_page = 0" "shown loaded_page = []"
  "hidden_listeners loaded_page = []" "created loaded_page = []"
  by (simp_all add: loaded_page_def script_load_def empty_page_def)


section \<open>The migration callback\<close>

lemma category_of_categories: "category_of e \<in> set categories"
  by (simp add: category_of_def categories_def)

lemma method_names:
  "method_name (lit ''success'') = lit ''showSuccess''"
  "method_name (lit ''warning'') = lit ''showWarning''"
  "method_name (lit ''danger'') = lit ''showDanger''"
  "method_name (lit ''info'') = lit ''showInfo''"
  by (simp_all add: method_name_def lit_def charAt0_def slice1_def toUpperCase_def)

lemma call_method_entry:
  assumes "(sev, glyph, f) \<in> set entry_points" and "available (method_name sev) w"
  shows "call_method (method_name sev) m w = f m w"
proof -
  from assms(2) obtain props where p: "BudgeteerNotifications w = Some props"
    "method_name sev \<in> set props"
    by (auto simp: available_def split: option.splits)
  have ne: "lit ''showWarning'' \<noteq> lit ''showSuccess''" "lit ''showDanger'' \<noteq> lit ''showSuccess''"
    "lit ''showDanger'' \<noteq> lit ''showWarning''" "lit ''showInfo'' \<noteq> lit ''showSuccess''"
    "lit ''showInfo'' \<noteq> lit ''showWarning''" "lit ''showInfo'' \<noteq> lit ''showDanger''"
    by (simp_all add: lit_def)
  from assms(1) consider "sev = lit ''success'' \<and> f = showSuccess"
    | "sev = lit ''warning'' \<and> f = showWarning" | "sev = lit ''danger'' \<and> f = showDanger"
    | "sev = lit ''info'' \<and> f = showInfo"
    by (auto simp: entry_points_def)
  then show ?thesis
    using p by cases (simp_all add: call_method_def method_names ne)
qed

lemma migrate_entry:
  assumes "find_node a (document w @ detached w) = Some (e, cs)"
    and "(category_of e, glyph, f) \<in> set entry_points"
  shows "migrate a w =
           (if available (method_name (category_of e)) w
            then then_remove a (f (trim (text_of cs)) w)
            else Inr (remove a w))"
  using assms
  by (simp add: migrate_def Let_def then_remove_def call_method_entry)

lemma entry_for_category:
  "sev \<in> set categories \<Longrightarrow> \<exists>glyph f. (sev, glyph, f) \<in> set entry_points"
  by (auto simp: categories_def entry_points_def)


lemma drop_trailing:
  "d = rev (dropWhile P (rev d)) @ rev (takeWhile P (rev d))"
proof -
  have "rev d = takeWhile P (rev d) @ dropWhile P (rev d)"
    by (rule takeWhile_dropWhile_id[symmetric])
  then have "rev (rev d) = rev (takeWhile P (rev d) @ dropWhile P (rev d))"
    by (rule arg_cong)
  then show ?thesis by (simp only: rev_rev_ident rev_append)
qed

lemma trim_split:
  "s = takeWhile isWhiteSpace s @ trim s @
         rev (takeWhile isWhiteSpace (rev (dropWhile isWhiteSpace s)))"
proof -
  have "s = takeWhile isWhiteSpace s @ dropWhile isWhiteSpace s"
    by (rule takeWhile_dropWhile_id[symmetric])
  also have "dropWhile isWhiteSpace s =
      trim s @ rev (takeWhile isWhiteSpace (rev (dropWhile isWhiteSpace s)))"
    unfolding trim_def by (rule drop_trailing)
  finally show ?thesis .
qed

lemma trim_decomp:
  "\<exists>pre post. s = pre @ trim s @ post \<and> list_all isWhiteSpace pre \<and> list_all isWhiteSpace post"
proof (intro exI conjI)
  show "s = takeWhile isWhiteSpace s @ trim s @
         rev (takeWhile isWhiteSpace (rev (dropWhile isWhiteSpace s)))"
    by (rule trim_split)
  show "list_all isWhiteSpace (takeWhile isWhiteSpace s)"
    by (auto simp add: list_all_iff dest: set_takeWhileD)
  show "list_all isWhiteSpace (rev (takeWhile isWhiteSpace (rev (dropWhile isWhiteSpace s))))"
    by (auto simp add: list_all_iff dest: set_takeWhileD)
qed

lemma trim_ends:
  assumes "trim s \<noteq> []"
  shows "\<not> isWhiteSpace (hd (trim s))" and "\<not> isWhiteSpace (last (trim s))"
proof -
  let ?d = "dropWhile isWhiteSpace s"
  let ?r = "dropWhile isWhiteSpace (rev ?d)"
  from assms have r: "?r \<noteq> []" by (simp add: trim_def)
  then have "\<not> isWhiteSpace (hd ?r)" by (rule hd_dropWhile)
  with r show "\<not> isWhiteSpace (last (trim s))" by (simp add: trim_def last_rev)
  have d: "?d = trim s @ rev (takeWhile isWhiteSpace (rev ?d))"
    unfolding trim_def by (rule drop_trailing)
  from assms have "trim s @ rev (takeWhile isWhiteSpace (rev ?d)) \<noteq> []" by simp
  with d have ne: "?d \<noteq> []" by simp
  then have "\<not> isWhiteSpace (hd ?d)" by (rule hd_dropWhile)
  moreover have "hd (trim s @ rev (takeWhile isWhiteSpace (rev ?d))) = hd (trim s)"
    using assms by (rule hd_append2)
  ultimately show "\<not> isWhiteSpace (hd (trim s))" using d by simp
qed

lemma alert_page_facts:
  "well_formed (alert_page cls msg)"
  "document (alert_page cls msg) =
     [Element \<lparr>nid = 0, localName = lit ''div'', className = cls, attributes = [],
              style_zIndex = []\<rparr> [Text msg]]"
  "body (alert_page cls msg) =
     Some [Element \<lparr>nid = 0, localName = lit ''div'', className = cls, attributes = [],
              style_zIndex = []\<rparr> [Text msg]]"
  "detached (alert_page cls msg) = []" "next_id (alert_page cls msg) = 1"
  "bootstrap (alert_page cls msg) = HasToast" "html_parse (alert_page cls msg) = subset_parser"
  "BudgeteerNotifications (alert_page cls msg) =
     Some [lit ''showSuccess'', lit ''showWarning'', lit ''showDanger'', lit ''showInfo'',
           lit ''_showToast'']"
  "shown (alert_page cls msg) = []" "hidden_listeners (alert_page cls msg) = []"
  "created (alert_page cls msg) = []"
  by (simp_all add: alert_page_def loaded_page_def script_load_def empty_page_def
      well_formed_def all_elems_def document_def)

lemma flash_page_facts:
  "well_formed flash_page"
  "document flash_page = [Element flash_alert [Text (lit '' Low balance '')]]"
  "detached flash_page = []" "BudgeteerNotifications flash_page = None"
  "nid flash_alert = 0"
  by (simp_all add: flash_page_def empty_page_def well_formed_def all_elems_def document_def
      flash_alert_def)

lemma low_balance_page:
  "category_of \<lparr>nid = 0, localName = lit ''div'',
      className = lit ''alert alert-warning d-none'', attributes = [],
      style_zIndex = []\<rparr> = lit ''warning''"
  "matches [lit ''alert'', lit ''d-none'']
     \<lparr>nid = 0, localName = lit ''div'', className = lit ''alert alert-warning d-none'',
      attributes = [], style_zIndex = []\<rparr>"
  "trim (lit '' Low balance '') = lit ''Low balance''"
  by (simp_all add: category_of_def matches_def contains_def classList_def lit_def
      isAsciiWhitespace_def trim_def isWhiteSpace_def)

section \<open>The load handler\<close>

lemma showToast_all_mset:
  assumes "well_formed w" and "body w \<noteq> None"
  shows "mset (all_elems (after (showToast ty m w))) =
           mset (all_elems w) + mset (elems [new_toast (html_parse w) (toast_id w) ty m]) +
           (if querySelector [lit ''toast-container''] w = None
            then {#container_element (container_id w)#} else {#})"
  by (simp add: all_elems_def showToast_doc_mset[OF assms] showToast_frame(1)[OF assms(1)])

lemma showToast_toasts:
  assumes "well_formed w" and "body w \<noteq> None" and "ty \<in> set categories" and "history_ok w"
  shows "length (toasts (after (showToast ty m w))) = Suc (length (toasts w))"
proof -
  let ?w1 = "after (showToast ty m w)"
  let ?t = "toast_id w"
  let ?toast = "new_toast (html_parse w) ?t ty m"
  let ?P = "\<lambda>cr e. nid e \<in> set cr \<and> contains e (lit ''toast'')"
  have old: "\<forall>e\<in>set (all_elems w). nid e < next_id w"
    using assms(1) by (simp_all add: well_formed_def list_all_iff)
  have cr: "\<forall>i\<in>set (created w). i < next_id w"
    using assms(4) by (simp add: history_ok_def list_all_iff)
  have c1: "created ?w1 = created w @
           (case querySelector [lit ''toast-container''] w of
              Some c \<Rightarrow> [] | None \<Rightarrow> [container_id w]) @ [?t]"
    using assms(1,2) by (rule showToast_frame(10))
  have in_new: "i \<in> set (created ?w1) \<longleftrightarrow>
      i \<in> set (created w) \<or> i = ?t \<or>
      (querySelector [lit ''toast-container''] w = None \<and> i = next_id w)" for i
    unfolding c1 by (auto simp: toast_id_fresh split: option.splits)
  have a: "filter_mset (?P (created ?w1)) (mset (all_elems w)) =
           filter_mset (?P (created w)) (mset (all_elems w))"
  proof (rule filter_mset_cong[OF refl])
    fix e assume "e \<in># mset (all_elems w)"
    then have "nid e < next_id w" using old by simp
    with toast_id_fresh(1)[of w] show "?P (created ?w1) e = ?P (created w) e"
      by (auto simp: in_new)
  qed
  have "filter (?P (created ?w1)) (elems (number (Suc ?t) (html_parse w (toast_markup m)))) = []"
  proof -
    have "\<not> ?P (created ?w1) x"
      if "x \<in> set (elems (number (Suc ?t) (html_parse w (toast_markup m))))" for x
    proof -
      from number_bounds[OF that] have "?t < nid x" by simp
      with cr toast_id_fresh(1)[of w] show ?thesis by (auto simp: in_new)
    qed
    then show ?thesis by (simp add: filter_empty_conv)
  qed
  then have b: "filter_mset (?P (created ?w1)) (mset (elems [?toast])) = {#toast_element ?t ty#}"
    using assms(3) by (simp add: elems_new_toast in_new toast_is_toast flip: mset_filter)
  have c: "\<not> ?P (created ?w1) (container_element (container_id w))"
    by (simp add: container_not_toast)
  have "size (filter_mset (?P (created ?w1)) (mset (all_elems ?w1))) =
        Suc (size (filter_mset (?P (created w)) (mset (all_elems w))))"
    unfolding showToast_all_mset[OF assms(1,2)] filter_union_mset a b
    using c by simp
  then show ?thesis by (simp add: toasts_def length_filter_mset)
qed

lemma showToast_toasts_no_body:
  assumes "well_formed w" and "body w = None"
  shows "toasts (after (showToast ty m w)) = toasts w"
proof -
  have "\<forall>e\<in>set (all_elems w). nid e \<noteq> next_id w"
    using assms(1) by (auto simp: well_formed_def list_all_iff)
  then show ?thesis
    using assms(2) by (auto simp add: showToast_no_body toasts_def all_elems_def document_def
        intro!: filter_cong)
qed

lemma showToast_step:
  fixes m :: jsstring and ty :: jsstring
  assumes "well_formed w"
  defines "w1 \<equiv> after (showToast ty m w)"
  shows "set (elems (document w1)) \<subseteq> set (elems (document w)) \<union> newer w"
    and "nid ` set (all_elems w) \<subseteq> nid ` set (all_elems w1)"
proof -
  have "set (elems (document w1)) \<subseteq> set (elems (document w)) \<union> newer w \<and>
        nid ` set (all_elems w) \<subseteq> nid ` set (all_elems w1)"
  proof (cases "body w")
    case None
    then show ?thesis
      by (simp add: w1_def showToast_no_body all_elems_def document_def)
  next
    case (Some ns)
    then have b: "body w \<noteq> None" by simp
    let ?toast = "new_toast (html_parse w) (toast_id w) ty m"
    have d: "set (elems (document w1)) =
          set_mset (mset (elems (document w)) + mset (elems [?toast]) +
           (if querySelector [lit ''toast-container''] w = None
            then {#container_element (container_id w)#} else {#}))"
      unfolding w1_def using showToast_doc_mset[OF assms(1) b, of ty m] by (metis set_mset_mset)
    have a: "set (all_elems w1) =
          set_mset (mset (all_elems w) + mset (elems [?toast]) +
           (if querySelector [lit ''toast-container''] w = None
            then {#container_element (container_id w)#} else {#}))"
      unfolding w1_def using showToast_all_mset[OF assms(1) b, of ty m] by (metis set_mset_mset)
    have "x \<in> newer w" if "x \<in> set (elems [?toast])" for x
      using new_toast_bounds[OF that] toast_id_fresh(1)[of w] by (simp add: newer_def)
    moreover have "container_element (container_id w) \<in> newer w"
      if "querySelector [lit ''toast-container''] w = None"
      using that by (simp add: newer_def toast_id_fresh)
    ultimately have "set (elems (document w1)) \<subseteq> set (elems (document w)) \<union> newer w"
      unfolding d by (auto split: if_splits)
    moreover have "nid ` set (all_elems w) \<subseteq> nid ` set (all_elems w1)"
      unfolding a by auto
    ultimately show ?thesis by simp
  qed
  then show "set (elems (document w1)) \<subseteq> set (elems (document w)) \<union> newer w"
    and "nid ` set (all_elems w) \<subseteq> nid ` set (all_elems w1)"
    by simp_all
qed

lemma remove_step:
  assumes "well_formed w"
  shows "set (elems (document (remove a w))) \<subseteq> set (elems (document w))"
    and "length (toasts (remove a w)) = length (toasts w)"
    and "nid ` set (all_elems (remove a w)) = nid ` set (all_elems w)"
    and "a \<notin> nid ` set (elems (document (remove a w)))"
proof -
  show "set (elems (document (remove a w))) \<subseteq> set (elems (document w))"
    by (simp add: document_remove del_set)
  have m: "mset (all_elems (remove a w)) = mset (all_elems w)"
    using assms by (rule remove_all_mset)
  then show "length (toasts (remove a w)) = length (toasts w)"
    by (simp add: toasts_def length_filter_mset)
  from m have "set (all_elems (remove a w)) = set (all_elems w)" by (rule mset_eq_setD)
  then show "nid ` set (all_elems (remove a w)) = nid ` set (all_elems w)" by simp
  show "a \<notin> nid ` set (elems (document (remove a w)))"
    by (simp add: document_remove del_gone)
qed

text \<open>The three ways the callback can go.\<close>

lemma migrate_cases:
  obtains (stopped) err where "migrate a w = Inl (err, w)"
  | (skipped) "migrate a w = Inr (remove a w)"
  | (called) sev m where "sev \<in> set categories"
      and "migrate a w = then_remove a (showToast sev m w)"
proof (cases "find_node a (document w @ detached w)")
  case None
  then have "migrate a w = Inl (TypeError, w)" by (simp add: migrate_def)
  then show ?thesis by (rule stopped)
next
  case (Some r)
  obtain e cs where f: "find_node a (document w @ detached w) = Some (e, cs)"
    using Some by (cases r) simp
  obtain glyph g where ep: "(category_of e, glyph, g) \<in> set entry_points"
    using entry_for_category[OF category_of_categories] by blast
  let ?m = "trim (text_of cs)"
  show ?thesis
  proof (cases "available (method_name (category_of e)) w")
    case False
    with f ep have "migrate a w = Inr (remove a w)" by (simp add: migrate_entry)
    then show ?thesis by (rule skipped)
  next
    case True
    with f ep have r: "migrate a w = then_remove a (g ?m w)" by (simp add: migrate_entry)
    have u: "g ?m w = this_showToast (category_of e) (glyph @ ?m) w"
      using ep by (simp add: entry_point_unfold)
    show ?thesis
    proof (cases "available (lit ''_showToast'') w")
      case True
      then have "g ?m w = showToast (category_of e) (glyph @ ?m) w"
        by (simp add: u this_showToast_available)
      with r have "migrate a w = then_remove a (showToast (category_of e) (glyph @ ?m) w)"
        by simp
      with category_of_categories show ?thesis by (rule called)
    next
      case False
      then have "g ?m w = Inl (TypeError, w)"
        by (auto simp: u this_showToast_def available_def split: option.splits)
      with r have "migrate a w = Inl (TypeError, w)" by (simp add: then_remove_def)
      then show ?thesis by (rule stopped)
    qed
  qed
qed

lemma then_remove_after:
  "after (then_remove a r) = (if returned r then remove a (after r) else after r)"
  "returned (then_remove a r) = returned r"
  by (cases r; simp add: then_remove_def split: prod.splits)+

lemma migrate_step:
  fixes a :: nat
  assumes "well_formed w"
  defines "w1 \<equiv> after (migrate a w)"
  shows "well_formed w1"
    and "returned (migrate a w) \<longrightarrow> a \<notin> nid ` set (elems (document w1))"
    and "set (elems (document w1)) \<subseteq> set (elems (document w)) \<union> newer w"
    and "next_id w \<le> next_id w1"
    and "history_ok w \<longrightarrow> history_ok w1 \<and> length (toasts w1) \<le> Suc (length (toasts w))"
    and "nid ` set (all_elems w) \<subseteq> nid ` set (all_elems w1)"
    and "bootstrap w1 = bootstrap w"
    and "BudgeteerNotifications w1 = BudgeteerNotifications w"
    and "body w \<noteq> None \<longrightarrow> body w1 \<noteq> None"
    and "length (shown w1) \<le> Suc (length (shown w))"
proof -
  have "well_formed w1 \<and> (returned (migrate a w) \<longrightarrow> a \<notin> nid ` set (elems (document w1))) \<and>
      set (elems (document w1)) \<subseteq> set (elems (document w)) \<union> newer w \<and>
      next_id w \<le> next_id w1 \<and>
      (history_ok w \<longrightarrow> history_ok w1 \<and> length (toasts w1) \<le> Suc (length (toasts w))) \<and>
      nid ` set (all_elems w) \<subseteq> nid ` set (all_elems w1) \<and>
      bootstrap w1 = bootstrap w \<and> BudgeteerNotifications w1 = BudgeteerNotifications w \<and>
      (body w \<noteq> None \<longrightarrow> body w1 \<noteq> None) \<and>
      length (shown w1) \<le> Suc (length (shown w))"
  proof (cases a w rule: migrate_cases)
    case (stopped err)
    with assms(1) show ?thesis by (simp add: w1_def)
  next
    case skipped
    with assms(1) remove_step[OF assms(1), of a] show ?thesis
      by (simp add: w1_def well_formed_remove history_ok_def) blast
  next
    case (called sev m)
    let ?w0 = "after (showToast sev m w)"
    have wf0: "well_formed ?w0" using assms(1) by (rule well_formed_showToast)
    note st = showToast_step[OF assms(1), of sev m]
    note rm = remove_step[OF wf0, of a]
    note fr = showToast_frame[OF assms(1), of sev m]
    have t0: "history_ok w \<longrightarrow> history_ok ?w0 \<and> length (toasts ?w0) \<le> Suc (length (toasts w))"
      using showToast_toasts[OF assms(1) _ called(1), of m]
        showToast_toasts_no_body[OF assms(1), of sev m]
        history_showToast[OF assms(1), of sev m]
      by (cases "body w") simp_all
    show ?thesis
    proof (cases "returned (showToast sev m w)")
      case False
      then have w1: "w1 = ?w0" "\<not> returned (migrate a w)"
        by (simp_all add: w1_def called(2) then_remove_after)
      show ?thesis
        using wf0 st t0 fr(2,3,5,6,11) by (simp add: w1)
    next
      case True
      then have w1: "w1 = remove a ?w0"
        by (simp add: w1_def called(2) then_remove_after)
      have "set (elems (document w1)) \<subseteq> set (elems (document w)) \<union> newer w"
        using st(1) rm(1) by (auto simp: w1)
      moreover have "nid ` set (all_elems w) \<subseteq> nid ` set (all_elems w1)"
        using st(2) rm(3) by (simp add: w1)
      moreover have "body w \<noteq> None \<longrightarrow> body w1 \<noteq> None"
        using fr(6) by (simp add: w1)
      ultimately show ?thesis
        using wf0 rm(2,4) t0 fr(2,3,5,11)
        by (simp add: w1 well_formed_remove history_ok_def)
    qed
  qed
  then show "well_formed w1"
    and "returned (migrate a w) \<longrightarrow> a \<notin> nid ` set (elems (document w1))"
    and "set (elems (document w1)) \<subseteq> set (elems (document w)) \<union> newer w"
    and "next_id w \<le> next_id w1"
    and "history_ok w \<longrightarrow> history_ok w1 \<and> length (toasts w1) \<le> Suc (length (toasts w))"
    and "nid ` set (all_elems w) \<subseteq> nid ` set (all_elems w1)"
    and "bootstrap w1 = bootstrap w"
    and "BudgeteerNotifications w1 = BudgeteerNotifications w"
    and "body w \<noteq> None \<longrightarrow> body w1 \<noteq> None"
    and "length (shown w1) \<le> Suc (length (shown w))"
    by simp_all
qed

lemma returned_Inr: "returned r \<Longrightarrow> \<exists>w. r = Inr w"
  by (cases r) simp_all

lemma returned_after: "returned r \<Longrightarrow> r = Inr (after r)"
  by (cases r) simp_all

lemma migrate_alive:
  "migrate a w = Inr w1 \<Longrightarrow> a \<in> nid ` set (all_elems w)"
proof -
  assume "migrate a w = Inr w1"
  then have "find_node a (document w @ detached w) \<noteq> None"
    by (auto simp: migrate_def split: option.splits)
  then show ?thesis
    by (simp add: find_node_None all_elems_def elems_append)
qed

lemma forEach_after:
  "after (forEach (a # as) w) =
     (if returned (migrate a w) then after (forEach as (after (migrate a w)))
      else after (migrate a w))"
  "returned (forEach (a # as) w) \<longleftrightarrow>
     returned (migrate a w) \<and> returned (forEach as (after (migrate a w)))"
  by (cases "migrate a w"; simp split: prod.splits)+

lemma forEach_bounds:
  assumes "well_formed w"
  shows "well_formed (after (forEach as w)) \<and>
         length (shown (after (forEach as w))) \<le> length (shown w) + length as \<and>
         (history_ok w \<longrightarrow>
            history_ok (after (forEach as w)) \<and>
            length (toasts (after (forEach as w))) \<le> length (toasts w) + length as)"
  using assms
proof (induction as arbitrary: w)
  case Nil
  then show ?case by simp
next
  case (Cons a as)
  note st = migrate_step[OF Cons.prems(1), of a]
  show ?case
  proof (cases "returned (migrate a w)")
    case False
    with st(1,5,10) show ?thesis by (auto simp add: forEach_after simp del: forEach.simps)
  next
    case True
    with Cons.IH[OF st(1)] st(5,10) show ?thesis
      by (auto simp add: forEach_after simp del: forEach.simps)
  qed
qed

lemma forEach_props:
  assumes "well_formed w" and "returned (forEach as w)"
  shows "(\<forall>a\<in>set as. a \<notin> nid ` set (elems (document (after (forEach as w))))) \<and>
         set (elems (document (after (forEach as w)))) \<subseteq> set (elems (document w)) \<union> newer w"
  using assms
proof (induction as arbitrary: w)
  case Nil
  then show ?case by simp
next
  case (Cons a as)
  let ?w1 = "after (migrate a w)"
  let ?w' = "after (forEach as ?w1)"
  from Cons.prems(2) have r: "returned (migrate a w)" "returned (forEach as ?w1)"
    by (simp_all add: forEach_after del: forEach.simps)
  note st = migrate_step[OF Cons.prems(1), of a]
  note ih = Cons.IH[OF st(1) r(2)]
  have sub: "newer ?w1 \<subseteq> newer w" using st(4) by (auto simp: newer_def)
  have "a \<in> nid ` set (all_elems w)"
    using migrate_alive[OF returned_after[OF r(1)]] .
  then have "a < next_id w" using Cons.prems(1) by (auto simp: well_formed_def list_all_iff)
  then have "a \<notin> nid ` newer ?w1" using st(4) by (auto simp: newer_def)
  then have "a \<notin> nid ` set (elems (document ?w'))"
    using ih st(2) r(1) by blast
  moreover have "set (elems (document ?w')) \<subseteq> set (elems (document w)) \<union> newer w"
    using ih st(3) sub by blast
  ultimately show ?case using ih r by (simp add: forEach_after del: forEach.simps)
qed

lemma migrate_returns:
  assumes "bootstrap w = HasToast"
    and "BudgeteerNotifications w = None \<or> available (lit ''_showToast'') w"
    and "body w \<noteq> None" and "a \<in> nid ` set (all_elems w)"
  shows "returned (migrate a w)"
proof -
  from assms(4) have "find_node a (document w @ detached w) \<noteq> None"
    by (simp add: find_node_None all_elems_def elems_append)
  then obtain e cs where f: "find_node a (document w @ detached w) = Some (e, cs)" by auto
  obtain glyph g where ep: "(category_of e, glyph, g) \<in> set entry_points"
    using entry_for_category[OF category_of_categories] by blast
  show ?thesis
  proof (cases "available (method_name (category_of e)) w")
    case False
    with f ep show ?thesis by (simp add: migrate_entry)
  next
    case True
    then have "BudgeteerNotifications w \<noteq> None"
      by (auto simp: available_def split: option.splits)
    with assms(2) have av: "available (lit ''_showToast'') w" by simp
    let ?m = "trim (text_of cs)"
    have "g ?m w = showToast (category_of e) (glyph @ ?m) w"
      using entry_point_after[OF ep av] by simp
    moreover have "returned (showToast (category_of e) (glyph @ ?m) w)"
      using assms(1,3) by (simp add: returned_showToast)
    ultimately have "returned (g ?m w)" by simp
    with f ep True show ?thesis by (simp add: migrate_entry then_remove_after)
  qed
qed

lemma forEach_returns:
  assumes "well_formed w" and "bootstrap w = HasToast"
    and "BudgeteerNotifications w = None \<or> available (lit ''_showToast'') w"
    and "body w \<noteq> None" and "\<forall>a\<in>set as. a \<in> nid ` set (all_elems w)"
  shows "returned (forEach as w)"
  using assms
proof (induction as arbitrary: w)
  case Nil
  then show ?case by simp
next
  case (Cons a as)
  let ?w1 = "after (migrate a w)"
  from Cons.prems have m: "returned (migrate a w)"
    using migrate_returns[of w a] by auto
  note st = migrate_step[OF Cons.prems(1), of a]
  have "returned (forEach as ?w1)"
  proof (rule Cons.IH)
    show "well_formed ?w1" by (rule st(1))
    show "bootstrap ?w1 = HasToast" using st(7) Cons.prems(2) by simp
    show "BudgeteerNotifications ?w1 = None \<or> available (lit ''_showToast'') ?w1"
      using st(8) Cons.prems(3) by (simp add: available_def)
    show "body ?w1 \<noteq> None" using st(9) Cons.prems(4) by simp
    show "\<forall>a\<in>set as. a \<in> nid ` set (all_elems ?w1)"
      using st(6) Cons.prems(5) by auto
  qed
  with m show ?case by (simp add: forEach_after del: forEach.simps)
qed

lemma alerts_in_document:
  "set (map nid (querySelectorAll sel w)) \<subseteq> nid ` set (elems (document w))"
  by (auto simp: querySelectorAll_def)


section \<open>The content of a toast\<close>

lemma number_template:
  "number k (template_tree b) =
     [Text (indent 12),
      Element (flex_element\<lparr>nid := k\<rparr>)
        [Text (indent 16), Element (body_element\<lparr>nid := Suc k\<rparr>) (number (Suc (Suc k)) b),
         Text (indent 16),
         Element (close_button\<lparr>nid := Suc (Suc (k + length (elems b)))\<rparr>) [],
         Text (indent 12)],
      Text (indent 8)]"
  by (simp add: template_tree_def)

lemma template_classes:
  "\<not> contains flex_element (lit ''toast-body'')" "contains body_element (lit ''toast-body'')"
  by (simp_all add: contains_def classList_def flex_element_def body_element_def lit_def
      isAsciiWhitespace_def)

lemma body_nodes_template:
  "body_nodes (Element e (number k (template_tree b))) = number (Suc (Suc k)) b"
  by (simp add: body_nodes_def number_template template_classes)

lemma elems_cons_text [simp]: "elems (cons_text s ns) = elems ns"
  by (cases "(s, ns)" rule: cons_text.cases) simp_all

lemma elems_template:
  "length (elems (template_tree b)) = 3 + length (elems b)"
  by (simp add: template_tree_def)

lemma toast_content:
  assumes "conforming h" and "list_all plain_char g" and "parse_simple m = Some ms"
  shows "new_toast h t ty (g @ m) =
           Element (toast_element t ty) (number (Suc t) (template_tree (cons_text g ms)))"
  by (simp add: new_toast_def conforming_template[OF assms])

lemma toast_content_plain:
  assumes "conforming h" and "list_all plain_char g" and "g \<noteq> []" and "list_all plain_char m"
  shows "new_toast h t ty (g @ m) =
           Element (toast_element t ty) (number (Suc t) (template_tree [Text (g @ m)]))"
  using toast_content[OF assms(1,2) parse_plain[OF assms(4)], of t ty] assms(3)
  by (simp add: cons_text_plain)

lemma weight_plain:
  assumes "conforming h" and "list_all plain_char g" and "g \<noteq> []" and "list_all plain_char m"
  shows "weight (new_toast h t ty (g @ m)) = 4"
  by (simp add: toast_content_plain[OF assms] weight_def elems_template)

lemma entry_point_glyph:
  "(sev, glyph, f) \<in> set entry_points \<Longrightarrow> list_all plain_char glyph \<and> glyph \<noteq> []"
  using plain_glyphs
  by (auto simp: entry_points_def glyph_success_def glyph_warning_def glyph_danger_def
      glyph_info_def)

lemma plain_examples:
  "list_all plain_char (lit ''Budget saved'')" "list_all plain_char (lit ''Over budget'')"
  "list_all plain_char (lit ''Hello'')" "list_all plain_char (lit ''Low balance'')"
  by (simp_all add: lit_def plain_char_def)

lemma first_toast:
  "after (showSuccess (lit ''Budget saved'') loaded_page) =
     loaded_page\<lparr>hidden_listeners := [Suc 0], shown := [Suc 0], created := [0, Suc 0],
       next_id := 5,
       body := Some [Element (container_element 0)
                       [Element (toast_element (Suc 0) (lit ''success''))
                          (number 2 (template_tree
                             [Text (glyph_success @ lit ''Budget saved'')]))]]\<rparr>"
proof -
  have g: "glyph_success \<noteq> []" by (simp add: glyph_success_def)
  note c = toast_content_plain[OF conforming_subset_parser plain_glyphs(1) g plain_examples(1)]
  note k = weight_plain[OF conforming_subset_parser plain_glyphs(1) g plain_examples(1)]
  show ?thesis
    by (simp add: showSuccess_def this_showToast_available loaded_page_facts loaded_page_more
        after_showToast shown_by_def querySelector_def k)
      (simp add: c numeral_2_eq_2)
qed

lemma parse_bold:
  "parse_simple (lit ''<b>Saved</b>'') =
     Some [Element \<lparr>nid = 0, localName = lit ''b'', className = [], attributes = [],
                    style_zIndex = []\<rparr> [Text (lit ''Saved'')]]"
  by code_simp

lemma show_on_loaded_page:
  assumes "(sev, glyph, f) \<in> set entry_points"
  shows "children_in 0 (after (f m loaded_page)) = [new_toast subset_parser (Suc 0) sev (glyph @ m)]"
  using showToast_effect(2)[OF loaded_page_facts(1), of sev "glyph @ m"]
    entry_point_after(1)[OF assms loaded_page_facts(4), of m]
  by (simp add: loaded_page_facts)

lemma parse_alert:
  "parse_simple alert_markup =
     Some [Element \<lparr>nid = 0, localName = lit ''div'', className = lit ''alert d-none'',
                    attributes = [], style_zIndex = []\<rparr> [Text (lit ''x'')]]"
  by code_simp

lemma template_not_alert:
  "\<not> contains flex_element (lit ''alert'')" "\<not> contains body_element (lit ''alert'')"
  "\<not> contains close_button (lit ''alert'')"
  by (simp_all add: contains_def classList_def flex_element_def body_element_def
      close_button_def lit_def isAsciiWhitespace_def)

lemma nested_alert_page_facts:
  "well_formed nested_alert_page"
  "document nested_alert_page =
     [Element (container_element 0)
        [Element (toast_element 1 (lit ''info''))
           (number 2 (template_tree
              [Text glyph_info,
               Element \<lparr>nid = 0, localName = lit ''div'', className = lit ''alert d-none'',
                        attributes = [], style_zIndex = []\<rparr> [Text (lit ''x'')]]))]]"
  "bootstrap nested_alert_page = HasToast"
  "available (lit ''_showToast'') nested_alert_page"
  "history_ok nested_alert_page"
proof -
  have s: "showInfo alert_markup loaded_page =
      showToast (lit ''info'') (glyph_info @ alert_markup) loaded_page"
    by (simp add: showInfo_def this_showToast_available loaded_page_facts)
  have g: "glyph_info \<noteq> []" by (simp add: glyph_info_def)
  note c = toast_content[OF conforming_subset_parser plain_glyphs(4) parse_alert,
      of "Suc 0" "lit ''info''"]
  show "well_formed nested_alert_page"
    unfolding nested_alert_page_def s using loaded_page_facts(1) by (rule well_formed_showToast)
  have b: "body loaded_page \<noteq> None" by (simp add: loaded_page_facts)
  show "document nested_alert_page =
     [Element (container_element 0)
        [Element (toast_element 1 (lit ''info''))
           (number 2 (template_tree
              [Text glyph_info,
               Element \<lparr>nid = 0, localName = lit ''div'', className = lit ''alert d-none'',
                        attributes = [], style_zIndex = []\<rparr> [Text (lit ''x'')]]))]]"
    unfolding nested_alert_page_def s
    using g by (simp add: document_showToast[OF loaded_page_facts(1) b] loaded_page_facts
        loaded_page_more querySelector_def c numeral_2_eq_2)
  show "bootstrap nested_alert_page = HasToast"
    unfolding nested_alert_page_def s
    by (simp add: showToast_frame(2)[OF loaded_page_facts(1)] loaded_page_facts)
  show "available (lit ''_showToast'') nested_alert_page"
    unfolding nested_alert_page_def s
    by (simp add: available_after_showToast[OF loaded_page_facts(1)] loaded_page_facts)
  have "history_ok loaded_page" by (simp add: history_ok_def loaded_page_more)
  then show "history_ok nested_alert_page"
    unfolding nested_alert_page_def s by (rule history_showToast[OF loaded_page_facts(1)])
qed

lemma template_no_match:
  "\<not> matches [lit ''alert'', lit ''d-none''] (container_element k)"
  "ty \<in> set categories \<Longrightarrow> \<not> matches [lit ''alert'', lit ''d-none''] (toast_element k ty)"
  "\<not> matches [lit ''alert'', lit ''d-none''] (flex_element\<lparr>nid := k\<rparr>)"
  "\<not> matches [lit ''alert'', lit ''d-none''] (body_element\<lparr>nid := k\<rparr>)"
  "\<not> matches [lit ''alert'', lit ''d-none''] (close_button\<lparr>nid := k\<rparr>)"
  by (simp_all add: matches_def container_not_alert toast_not_alert template_not_alert)

lemma nested_alert_found:
  "map nid (querySelectorAll [lit ''alert'', lit ''d-none''] nested_alert_page) = [4]"
proof -
  have 1: "matches [lit ''alert'', lit ''d-none'']
      \<lparr>nid = k, localName = lit ''div'', className = lit ''alert d-none'',
                        attributes = [], style_zIndex = []\<rparr>" for k
    by (simp add: matches_def contains_def classList_def lit_def isAsciiWhitespace_def)
  have 2: "lit ''info'' \<in> set categories" by (simp add: categories_def)
  show ?thesis
    by (simp add: querySelectorAll_def nested_alert_page_facts(2) number_template 1
        template_no_match(1,3,4,5) template_no_match(2)[OF 2] eval_nat_numeral)
qed


chapter \<open>Properties of the notifier and of the migration\<close>

text \<open>
  C1 (as amended). In a well-formed page with a body and an intact namespace, each entry
  point called with a non-empty message leaves exactly one new node in the toast
  container, as its last child: the toast element, whose class list has \<^verbatim>\<open>bg-\<close> followed
  by the category, holding the nodes the parser makes of the template with the glyph
  and the message in the body slot. When the message has no character that is markup to
  a conforming parser (\<^verbatim>\<open><\<close>, \<^verbatim>\<open>&\<close>, carriage return, NUL), these nodes are the template's
  with one text node in the body, and the body text of the toast in the page is the
  glyph followed by the message. The node is there whether or not the widget is
  available; with the widget available the call returns.
\<close>

theorem entry_point_shows_toast:
  assumes "(sev, glyph, f) \<in> set entry_points"
    and "well_formed w" and "body w \<noteq> None" and "available (lit ''_showToast'') w"
    and "m \<noteq> []"
  shows "querySelector [lit ''toast-container''] (after (f m w)) = Some (container_id w) \<and>
         children_in (container_id w) (after (f m w)) =
           children_in (container_id w) w @
             [new_toast (html_parse w) (toast_id w) sev (glyph @ m)] \<and>
         contains (toast_element (toast_id w) sev) (lit ''bg-'' @ sev) \<and>
         (conforming (html_parse w) \<and> list_all plain_char m \<longrightarrow>
            new_toast (html_parse w) (toast_id w) sev (glyph @ m) =
              Element (toast_element (toast_id w) sev)
                (number (Suc (toast_id w)) (template_tree [Text (glyph @ m)])) \<and>
            text_of (body_nodes (last (children_in (container_id w) (after (f m w))))) =
              glyph @ m) \<and>
         (bootstrap w = HasToast \<longrightarrow> returned (f m w))"
proof -
  note f = entry_point_after[OF assms(1,4)]
  note g = entry_point_glyph[OF assms(1)]
  note eff = showToast_effect(1,2)[OF assms(2,3), of sev "glyph @ m"]
  have page: "querySelector [lit ''toast-container''] (after (f m w)) = Some (container_id w)"
    "children_in (container_id w) (after (f m w)) =
           children_in (container_id w) w @
             [new_toast (html_parse w) (toast_id w) sev (glyph @ m)]"
    using eff by (simp_all add: f(1))
  have bt: "conforming (html_parse w) \<and> list_all plain_char m \<longrightarrow>
            new_toast (html_parse w) (toast_id w) sev (glyph @ m) =
              Element (toast_element (toast_id w) sev)
                (number (Suc (toast_id w)) (template_tree [Text (glyph @ m)])) \<and>
            text_of (body_nodes (last (children_in (container_id w) (after (f m w))))) =
              glyph @ m"
  proof
    assume a: "conforming (html_parse w) \<and> list_all plain_char m"
    note c = toast_content_plain[OF conjunct1[OF a] conjunct1[OF g] conjunct2[OF g]
        conjunct2[OF a], of "toast_id w" sev]
    show "new_toast (html_parse w) (toast_id w) sev (glyph @ m) =
              Element (toast_element (toast_id w) sev)
                (number (Suc (toast_id w)) (template_tree [Text (glyph @ m)])) \<and>
            text_of (body_nodes (last (children_in (container_id w) (after (f m w))))) =
              glyph @ m"
      by (simp add: page(2)) (simp add: c body_nodes_template)
  qed
  have bg: "contains (toast_element (toast_id w) sev) (lit ''bg-'' @ sev)"
    by (rule toast_has_bg[OF f(2)])
  have rt: "bootstrap w = HasToast \<longrightarrow> returned (f m w)"
    by (simp add: f(1) returned_showToast[OF assms(3)])
  show ?thesis
    by (rule conjI[OF page(1) conjI[OF page(2) conjI[OF bg conjI[OF bt rt]]]])
qed

theorem entry_point_shows_toast_witness:
  "querySelector [lit ''toast-container''] (after (showSuccess (lit ''Budget saved'') loaded_page))
     = Some 0 \<and>
   children_in 0 (after (showSuccess (lit ''Budget saved'') loaded_page)) =
     [Element (toast_element 1 (lit ''success''))
        (number 2 (template_tree [Text ([0x2705, 0x20] @ lit ''Budget saved'')]))] \<and>
   contains (toast_element 1 (lit ''success'')) (lit ''bg-success'') \<and>
   text_of (body_nodes (last (children_in 0
       (after (showSuccess (lit ''Budget saved'') loaded_page))))) =
     [0x2705, 0x20] @ lit ''Budget saved'' \<and>
   returned (showSuccess (lit ''Budget saved'') loaded_page)"
proof -
  have 1: "(lit ''success'', glyph_success, showSuccess) \<in> set entry_points"
    by (simp add: entry_points_def)
  have 2: "body loaded_page \<noteq> None" by (simp add: loaded_page_facts)
  have 3: "lit ''Budget saved'' \<noteq> []" by (simp add: lit_def)
  have 4: "lit ''bg-'' @ lit ''success'' = lit ''bg-success''" by (simp add: lit_def)
  have 5: "conforming (html_parse loaded_page)"
    by (simp add: loaded_page_facts conforming_subset_parser)
  show ?thesis
    using entry_point_shows_toast[OF 1 loaded_page_facts(1) 2 loaded_page_facts(4) 3]
    by (simp add: loaded_page_facts(5,6,7,9,10) 4 5 plain_examples glyph_success_def
        numeral_2_eq_2 body_nodes_template conforming_subset_parser)
qed

text \<open>
  C1 as stated fails for a message with markup: after \<^verbatim>\<open>showInfo("<b>Saved</b>")\<close> on the
  empty loaded page the body text of the toast is the glyph followed by \<^verbatim>\<open>Saved\<close>, which
  is not the glyph followed by the message.
\<close>

theorem entry_point_shows_toast_counterexample:
  "lit ''<b>Saved</b>'' \<noteq> [] \<and>
   text_of (body_nodes (last (children_in 0
       (after (showInfo (lit ''<b>Saved</b>'') loaded_page))))) = glyph_info @ lit ''Saved'' \<and>
   glyph_info @ lit ''Saved'' \<noteq> glyph_info @ lit ''<b>Saved</b>''"
proof -
  have 1: "(lit ''info'', glyph_info, showInfo) \<in> set entry_points"
    by (simp add: entry_points_def)
  have g: "glyph_info \<noteq> []" by (simp add: glyph_info_def)
  note c = toast_content[OF conforming_subset_parser plain_glyphs(4) parse_bold,
      of "Suc 0" "lit ''info''"]
  have "text_of (body_nodes (last (children_in 0
       (after (showInfo (lit ''<b>Saved</b>'') loaded_page))))) = glyph_info @ lit ''Saved''"
    using g by (simp add: show_on_loaded_page[OF 1] c body_nodes_template)
  then show ?thesis by (simp add: lit_def)
qed

text \<open>
  C2 (as amended). On a well-formed page the load handler runs to completion whenever
  \<^verbatim>\<open>bootstrap.Toast\<close> is available and the namespace object, if there is one, still has
  its \<^verbatim>\<open>_showToast\<close>. Whether or not a call faults, the callback creates at most one
  toast for the alert it is given, and the whole handler creates at most one toast, and
  shows at most one, per hidden alert that was in the page (toasts are counted by the
  history of \<^verbatim>\<open>createElement\<close>, which must be sound). Whenever the handler runs to
  completion, every hidden alert that was in the page is out of the document, shown or
  not.
\<close>

theorem load_handler_removes_alerts:
  assumes "well_formed w"
  shows "(bootstrap w = HasToast \<and>
          (BudgeteerNotifications w = None \<or> available (lit ''_showToast'') w) \<longrightarrow>
            returned (DOMContentLoaded w)) \<and>
         (history_ok w \<longrightarrow>
            length (toasts (after (migrate a w))) \<le> Suc (length (toasts w)) \<and>
            length (toasts (after (DOMContentLoaded w))) \<le>
              length (toasts w) + length (querySelectorAll [lit ''alert'', lit ''d-none''] w)) \<and>
         length (shown (after (DOMContentLoaded w))) \<le>
           length (shown w) + length (querySelectorAll [lit ''alert'', lit ''d-none''] w) \<and>
         (returned (DOMContentLoaded w) \<longrightarrow>
            (\<forall>e\<in>set (querySelectorAll [lit ''alert'', lit ''d-none''] w).
               nid e \<notin> nid ` set (elems (document (after (DOMContentLoaded w))))))"
proof -
  let ?as = "map nid (querySelectorAll [lit ''alert'', lit ''d-none''] w)"
  let ?w' = "after (DOMContentLoaded w)"
  have 1: "bootstrap w = HasToast \<and>
          (BudgeteerNotifications w = None \<or> available (lit ''_showToast'') w) \<longrightarrow>
            returned (DOMContentLoaded w)"
  proof
    assume env: "bootstrap w = HasToast \<and>
          (BudgeteerNotifications w = None \<or> available (lit ''_showToast'') w)"
    show "returned (DOMContentLoaded w)"
    proof (cases "body w")
      case None
      then have "?as = []" by (simp add: querySelectorAll_def document_def)
      then show ?thesis by (simp add: DOMContentLoaded_def)
    next
      case (Some ns)
      have "\<forall>a\<in>set ?as. a \<in> nid ` set (all_elems w)"
        using alerts_in_document[of "[lit ''alert'', lit ''d-none'']" w]
        by (auto simp: all_elems_def)
      with assms env Some show ?thesis
        unfolding DOMContentLoaded_def by (intro forEach_returns) simp_all
    qed
  qed
  note b = forEach_bounds[OF assms, of ?as]
  have 2: "history_ok w \<longrightarrow>
            length (toasts (after (migrate a w))) \<le> Suc (length (toasts w)) \<and>
            length (toasts ?w') \<le>
              length (toasts w) + length (querySelectorAll [lit ''alert'', lit ''d-none''] w)"
    using migrate_step(5)[OF assms, of a] b by (simp add: DOMContentLoaded_def)
  have 3: "length (shown ?w') \<le>
           length (shown w) + length (querySelectorAll [lit ''alert'', lit ''d-none''] w)"
    using b by (simp add: DOMContentLoaded_def)
  have 4: "returned (DOMContentLoaded w) \<longrightarrow>
            (\<forall>e\<in>set (querySelectorAll [lit ''alert'', lit ''d-none''] w).
               nid e \<notin> nid ` set (elems (document ?w')))"
  proof
    assume "returned (DOMContentLoaded w)"
    then have "returned (forEach ?as w)" by (simp add: DOMContentLoaded_def)
    from forEach_props[OF assms this]
    show "\<forall>e\<in>set (querySelectorAll [lit ''alert'', lit ''d-none''] w).
               nid e \<notin> nid ` set (elems (document ?w'))"
      by (simp add: DOMContentLoaded_def)
  qed
  show ?thesis
    by (rule conjI[OF 1 conjI[OF 2 conjI[OF 3 4]]])
qed

theorem load_handler_removes_alerts_witness:
  "returned (DOMContentLoaded
     (alert_page (lit ''alert alert-warning d-none'') (lit '' Low balance ''))) \<and>
   length (querySelectorAll [lit ''alert'', lit ''d-none'']
     (alert_page (lit ''alert alert-warning d-none'') (lit '' Low balance ''))) = 1 \<and>
   0 \<notin> nid ` set (elems (document (after (DOMContentLoaded
     (alert_page (lit ''alert alert-warning d-none'') (lit '' Low balance '')))))) \<and>
   length (toasts (after (migrate 0
     (alert_page (lit ''alert alert-warning d-none'') (lit '' Low balance ''))))) \<le> 1 \<and>
   length (toasts (after (DOMContentLoaded
     (alert_page (lit ''alert alert-warning d-none'') (lit '' Low balance ''))))) \<le> 1 \<and>
   length (shown (after (DOMContentLoaded
     (alert_page (lit ''alert alert-warning d-none'') (lit '' Low balance ''))))) \<le> 1 \<and>
   map nid (querySelectorAll [lit ''alert'', lit ''d-none''] nested_alert_page) = [4] \<and>
   returned (DOMContentLoaded nested_alert_page) \<and>
   4 \<notin> nid ` set (elems (document (after (DOMContentLoaded nested_alert_page))))"
proof -
  let ?w = "alert_page (lit ''alert alert-warning d-none'') (lit '' Low balance '')"
  have q: "querySelectorAll [lit ''alert'', lit ''d-none''] ?w =
      [\<lparr>nid = 0, localName = lit ''div'', className = lit ''alert alert-warning d-none'',
        attributes = [], style_zIndex = []\<rparr>]"
    by (simp add: querySelectorAll_def alert_page_facts low_balance_page)
  have t: "toasts ?w = []"
    by (simp add: toasts_def alert_page_facts)
  have a: "available (lit ''_showToast'') ?w"
    by (simp add: available_def alert_page_facts)
  have h1: "history_ok ?w"
    by (simp add: history_ok_def alert_page_facts)
  have n: "set (querySelectorAll [lit ''alert'', lit ''d-none''] nested_alert_page) =
      set (querySelectorAll [lit ''alert'', lit ''d-none''] nested_alert_page)" by simp
  have "\<exists>e. querySelectorAll [lit ''alert'', lit ''d-none''] nested_alert_page = [e] \<and> nid e = 4"
    using nested_alert_found by (auto simp: map_eq_Cons_conv)
  then obtain e where e: "querySelectorAll [lit ''alert'', lit ''d-none''] nested_alert_page = [e]"
    "nid e = 4" by blast
  show ?thesis
    using load_handler_removes_alerts[OF alert_page_facts(1), of "lit ''alert alert-warning d-none''"
        "lit '' Low balance ''" 0]
      load_handler_removes_alerts[OF nested_alert_page_facts(1), of 0]
    by (simp add: q t a h1 alert_page_facts nested_alert_page_facts(3,4) e)
qed

text \<open>
  C2 as stated fails: the removal is not unconditional. With \<^verbatim>\<open>popup.js\<close> loaded and
  \<^verbatim>\<open>bootstrap\<close> not, the notifier call throws inside the callback, the handler ends
  there, and the hidden alert is still in the page.
\<close>

theorem load_handler_removes_alerts_counterexample:
  "querySelectorAll [lit ''alert'', lit ''d-none''] (script_load flash_page) = [flash_alert] \<and>
   \<not> returned (DOMContentLoaded (script_load flash_page)) \<and>
   querySelectorAll [lit ''alert'', lit ''d-none'']
     (after (DOMContentLoaded (script_load flash_page))) = [flash_alert]"
proof -
  let ?w = "script_load flash_page"
  let ?ns = "[Element flash_alert [Text (lit '' Low balance '')]]"
  let ?toast = "Element (toast_element 2 (lit ''warning''))
      (number 3 (template_tree [Text (glyph_warning @ lit ''Low balance'')]))"
  have c: "category_of flash_alert = lit ''warning''"
    "matches [lit ''alert'', lit ''d-none''] flash_alert"
    "\<not> matches [lit ''toast-container''] flash_alert"
    using low_balance_page(1,2)
    by (simp_all add: flash_alert_def)
      (simp add: matches_def contains_def classList_def lit_def isAsciiWhitespace_def)
  have w: "well_formed ?w" "body ?w = Some ?ns" "document ?w = ?ns" "detached ?w = []"
    "bootstrap ?w = Undeclared" "next_id ?w = 1" "html_parse ?w = subset_parser"
    "created ?w = []"
    "available name ?w \<longleftrightarrow> name \<in> {lit ''showSuccess'', lit ''showWarning'', lit ''showDanger'',
        lit ''showInfo'', lit ''_showToast''}" for name
    using flash_page_facts
    by (auto simp add: script_load_def well_formed_def all_elems_def document_def available_def
        flash_page_def empty_page_def)
  have q: "querySelectorAll [lit ''alert'', lit ''d-none''] ?w = [flash_alert]"
    by (simp add: querySelectorAll_def w c)
  have n: "querySelector [lit ''toast-container''] ?w = None"
    by (simp add: querySelector_def querySelectorAll_def w c)
  have g: "glyph_warning \<noteq> []" by (simp add: glyph_warning_def)
  note tc = toast_content_plain[OF conforming_subset_parser plain_glyphs(2) g plain_examples(4)]
  note k = weight_plain[OF conforming_subset_parser plain_glyphs(2) g plain_examples(4)]
  have s: "showWarning (lit ''Low balance'') ?w =
      Inl (ReferenceError, ?w\<lparr>created := [1, 2], next_id := 6,
        body := Some (?ns @ [Element (container_element 1) [?toast]])\<rparr>)"
    using showToast_fresh[OF w(1) n w(2)]
    by (simp add: showWarning_def this_showToast_available w activate_def k numeral_2_eq_2)
      (simp add: tc numeral_2_eq_2 numeral_3_eq_3)
  have f: "find_node 0 (document ?w @ detached ?w) =
      Some (flash_alert, [Text (lit '' Low balance '')])"
    by (simp add: w flash_page_facts)
  have ep: "(category_of flash_alert, glyph_warning, showWarning) \<in> set entry_points"
    by (simp add: c entry_points_def)
  have m: "migrate 0 ?w = then_remove 0 (showWarning (lit ''Low balance'') ?w)"
    using migrate_entry[OF f ep]
    by (simp add: c method_names w low_balance_page)
  have d: "DOMContentLoaded ?w = Inl (ReferenceError, ?w\<lparr>created := [1, 2], next_id := 6,
        body := Some (?ns @ [Element (container_element 1) [?toast]])\<rparr>)"
    by (simp add: DOMContentLoaded_def q flash_page_facts m s then_remove_def)
  have wc: "lit ''warning'' \<in> set categories" by (simp add: categories_def)
  note x = template_no_match(1,3,4,5) template_no_match(2)[OF wc]
  have "querySelectorAll [lit ''alert'', lit ''d-none''] (after (DOMContentLoaded ?w)) =
      [flash_alert]"
    by (simp add: d querySelectorAll_def c x number_template)
  with q d show ?thesis by simp
qed

text \<open>
  C3. On a well-formed page with a body and an intact namespace, take any sequence of
  calls of the entry points. If the page has no toast container and the sequence is not
  empty, the first call creates one as the last child of the body, with the classes
  \<^verbatim>\<open>position-fixed top-0 end-0\<close> that anchor it at the top right; after the whole
  sequence the body ends with that one container, it is the container a further call
  would find, and its children are the toasts of the calls in call order. If the page
  already has a container, every call finds that same one and the toasts are added to
  its children in call order.
\<close>

theorem container_singleton:
  assumes "well_formed w" and "body w = Some ns" and "available (lit ''_showToast'') w"
    and "\<forall>x\<in>set calls. fst x \<in> set entry_points"
  shows "(querySelector [lit ''toast-container''] w = None \<and> calls \<noteq> [] \<longrightarrow>
           body (show_all calls w) =
             Some (ns @ [Element (container_element (next_id w))
                           (toasts_of (html_parse w) calls (Suc (next_id w)))]) \<and>
           querySelector [lit ''toast-container''] (show_all calls w) = Some (next_id w) \<and>
           classList (container_element (next_id w)) =
             [lit ''toast-container'', lit ''position-fixed'', lit ''top-0'', lit ''end-0'',
              lit ''p-3'']) \<and>
         (\<forall>c. querySelector [lit ''toast-container''] w = Some c \<longrightarrow>
           querySelector [lit ''toast-container''] (show_all calls w) = Some c \<and>
           children_in c (show_all calls w) = children_in c w @ toasts_of (html_parse w) calls (next_id w))"
proof (intro conjI impI allI)
  fix c
  assume "querySelector [lit ''toast-container''] w = Some c"
  with assms have "querySelector [lit ''toast-container''] (show_all calls w) = Some c \<and>
         children_in c (show_all calls w) = children_in c w @ toasts_of (html_parse w) calls (next_id w)"
    by (intro show_all_reuses) simp_all
  then show "querySelector [lit ''toast-container''] (show_all calls w) = Some c"
    and "children_in c (show_all calls w) = children_in c w @ toasts_of (html_parse w) calls (next_id w)"
    by simp_all
next
  assume a: "querySelector [lit ''toast-container''] w = None \<and> calls \<noteq> []"
  then obtain sev glyph f m rest where calls: "calls = ((sev, glyph, f), m) # rest"
    by (cases calls) auto
  let ?c = "next_id w"
  let ?w' = "after (f m w)"
  let ?toast = "new_toast (html_parse w) (Suc ?c) sev (glyph @ m)"
  from assms(4) calls have ep: "(sev, glyph, f) \<in> set entry_points" by simp
  have f: "f m w = showToast sev (glyph @ m) w"
    using entry_point_after[OF ep assms(3)] by simp
  from a have q: "querySelector [lit ''toast-container''] w = None" by simp
  then have none: "filter (matches [lit ''toast-container'']) (elems ns) = []"
    using assms(2) by (simp add: querySelector_None document_body)
  have b: "body ?w' = Some (ns @ [Element (container_element ?c) [?toast]])"
    using assms(1,2) q by (simp add: f after_showToast toast_id_def container_id_def)
  have n: "next_id ?w' = Suc ?c + weight ?toast"
    using assms(1,2) q by (simp add: f showToast_frame(7) toast_id_def)
  have h: "html_parse ?w' = html_parse w"
    using assms(1) by (simp add: f showToast_frame(4))
  have "body (show_all rest ?w') =
          Some (ns @ [Element (container_element ?c)
                        ([?toast] @ toasts_of (html_parse ?w') rest (next_id ?w'))])"
    using assms(1,3,4) b none calls
    by (intro show_all_existing) (simp_all add: f well_formed_showToast available_after_showToast)
  then show body: "body (show_all calls w) =
           Some (ns @ [Element (container_element ?c) (toasts_of (html_parse w) calls (Suc ?c))])"
    by (simp add: calls n h)
  show "querySelector [lit ''toast-container''] (show_all calls w) = Some ?c"
    using none
    by (simp add: querySelector_def querySelectorAll_def document_body[OF body] elems_append
        container_matches)
  show "classList (container_element (next_id w)) =
             [lit ''toast-container'', lit ''position-fixed'', lit ''top-0'', lit ''end-0'',
              lit ''p-3'']"
    by (rule classList_container)
qed

theorem container_singleton_witness:
  "body (show_all [((lit ''success'', glyph_success, showSuccess), lit ''Budget saved''),
                   ((lit ''danger'', glyph_danger, showDanger), lit ''Over budget'')] loaded_page) =
     Some [Element (container_element 0)
             [new_toast subset_parser 1 (lit ''success'') (glyph_success @ lit ''Budget saved''),
              new_toast subset_parser 5 (lit ''danger'') (glyph_danger @ lit ''Over budget'')]] \<and>
   querySelector [lit ''toast-container'']
     (show_all [((lit ''info'', glyph_info, showInfo), lit ''Hello'')] page_with_container) = Some 0 \<and>
   children_in 0
     (show_all [((lit ''info'', glyph_info, showInfo), lit ''Hello'')] page_with_container) =
     [new_toast subset_parser 1 (lit ''info'') (glyph_info @ lit ''Hello'')]"
proof -
  let ?calls = "[((lit ''success'', glyph_success, showSuccess), lit ''Budget saved''),
                 ((lit ''danger'', glyph_danger, showDanger), lit ''Over budget'')]"
  let ?one = "[((lit ''info'', glyph_info, showInfo), lit ''Hello'')]"
  have 1: "\<forall>x\<in>set ?calls. fst x \<in> set entry_points"
    and 2: "\<forall>x\<in>set ?one. fst x \<in> set entry_points"
    by (simp_all add: entry_points_def)
  have p: "well_formed page_with_container"
    "body page_with_container = Some [Element \<lparr>nid = 0, localName = lit ''div'',
                                        className = lit ''toast-container'',
                                        attributes = [], style_zIndex = []\<rparr> []]"
    "available (lit ''_showToast'') page_with_container"
    by (simp_all add: page_with_container_def loaded_page_def script_load_def empty_page_def
        well_formed_def all_elems_def document_def available_def)
  have q: "querySelector [lit ''toast-container''] page_with_container = Some 0"
    by (simp add: querySelector_def querySelectorAll_def document_body[OF p(2)] matches_def
        contains_def classList_def lit_def isAsciiWhitespace_def)
  have k: "children_in 0 page_with_container = []" "next_id page_with_container = 1"
    "html_parse page_with_container = subset_parser"
    by (simp_all add: children_in_def document_body[OF p(2)])
      (simp_all add: page_with_container_def loaded_page_facts)
  have n: "next_id loaded_page = 0" "querySelector [lit ''toast-container''] loaded_page = None"
    by (simp_all add: loaded_page_more querySelector_def loaded_page_facts)
  have g: "glyph_success \<noteq> []" by (simp add: glyph_success_def)
  note wt = weight_plain[OF conforming_subset_parser plain_glyphs(1) g plain_examples(1)]
  show ?thesis
    using container_singleton[OF loaded_page_facts(1,2,4) 1]
      container_singleton[OF p 2]
    by (simp add: loaded_page_facts q n k wt)
qed

text \<open>
  C4. For an alert that is alive in the window, the callback decides the category by the
  first class marker that matches, in the order \<^verbatim>\<open>alert-success\<close>, \<^verbatim>\<open>alert-warning\<close>,
  \<^verbatim>\<open>alert-danger\<close>, and takes \<^verbatim>\<open>info\<close> when none matches; when the method of that category
  is available, the entry point it calls is that one. An element with several markers
  goes by the first of them in this order.
\<close>

theorem migration_classifies_by_priority:
  assumes "find_node a (document w @ detached w) = Some (e, cs)"
  shows "(contains e (lit ''alert-success'') \<longrightarrow>
            category_of e = lit ''success'' \<and>
            (available (lit ''showSuccess'') w \<longrightarrow>
               migrate a w = then_remove a (showSuccess (trim (text_of cs)) w))) \<and>
         (\<not> contains e (lit ''alert-success'') \<and> contains e (lit ''alert-warning'') \<longrightarrow>
            category_of e = lit ''warning'' \<and>
            (available (lit ''showWarning'') w \<longrightarrow>
               migrate a w = then_remove a (showWarning (trim (text_of cs)) w))) \<and>
         (\<not> contains e (lit ''alert-success'') \<and> \<not> contains e (lit ''alert-warning'') \<and>
          contains e (lit ''alert-danger'') \<longrightarrow>
            category_of e = lit ''danger'' \<and>
            (available (lit ''showDanger'') w \<longrightarrow>
               migrate a w = then_remove a (showDanger (trim (text_of cs)) w))) \<and>
         (\<not> contains e (lit ''alert-success'') \<and> \<not> contains e (lit ''alert-warning'') \<and>
          \<not> contains e (lit ''alert-danger'') \<longrightarrow>
            category_of e = lit ''info'' \<and>
            (available (lit ''showInfo'') w \<longrightarrow>
               migrate a w = then_remove a (showInfo (trim (text_of cs)) w)))"
proof -
  have ep: "(lit ''success'', glyph_success, showSuccess) \<in> set entry_points"
    "(lit ''warning'', glyph_warning, showWarning) \<in> set entry_points"
    "(lit ''danger'', glyph_danger, showDanger) \<in> set entry_points"
    "(lit ''info'', glyph_info, showInfo) \<in> set entry_points"
    by (simp_all add: entry_points_def)
  have "category_of e = sev \<Longrightarrow> (sev, glyph, f) \<in> set entry_points \<Longrightarrow>
        available (method_name sev) w \<Longrightarrow>
        migrate a w = then_remove a (f (trim (text_of cs)) w)" for sev glyph f
    using migrate_entry[OF assms, of glyph f] by simp
  from this[OF _ ep(1)] this[OF _ ep(2)] this[OF _ ep(3)] this[OF _ ep(4)]
  show ?thesis
    by (simp add: category_of_def method_names)
qed

theorem migration_classifies_by_priority_witness:
  "migrate 0 (alert_page (lit ''alert alert-danger alert-success d-none'') (lit ''Saved'')) =
     then_remove 0 (showSuccess (lit ''Saved'')
       (alert_page (lit ''alert alert-danger alert-success d-none'') (lit ''Saved''))) \<and>
   migrate 0 (alert_page (lit ''alert alert-warning alert-danger d-none'') (lit ''Low'')) =
     then_remove 0 (showWarning (lit ''Low'')
       (alert_page (lit ''alert alert-warning alert-danger d-none'') (lit ''Low''))) \<and>
   migrate 0 (alert_page (lit ''alert alert-danger d-none'') (lit ''Failed'')) =
     then_remove 0 (showDanger (lit ''Failed'')
       (alert_page (lit ''alert alert-danger d-none'') (lit ''Failed''))) \<and>
   migrate 0 (alert_page (lit ''alert d-none'') (lit ''Note'')) =
     then_remove 0 (showInfo (lit ''Note'') (alert_page (lit ''alert d-none'') (lit ''Note'')))"
proof -
  let ?e = "\<lambda>cls. \<lparr>nid = 0, localName = lit ''div'', className = cls, attributes = [],
      style_zIndex = []\<rparr>"
  have f: "find_node 0 (document (alert_page cls msg) @ detached (alert_page cls msg)) =
             Some (?e cls, [Text msg])" for cls msg
    by (simp add: alert_page_facts)
  have c: "classList (?e (lit ''alert alert-danger alert-success d-none'')) =
             [lit ''alert'', lit ''alert-danger'', lit ''alert-success'', lit ''d-none'']"
    "classList (?e (lit ''alert alert-warning alert-danger d-none'')) =
             [lit ''alert'', lit ''alert-warning'', lit ''alert-danger'', lit ''d-none'']"
    "classList (?e (lit ''alert alert-danger d-none'')) =
             [lit ''alert'', lit ''alert-danger'', lit ''d-none'']"
    "classList (?e (lit ''alert d-none'')) = [lit ''alert'', lit ''d-none'']"
    by (simp_all add: classList_def lit_def isAsciiWhitespace_def)
  have a: "available (lit ''showSuccess'') (alert_page cls msg)"
    "available (lit ''showWarning'') (alert_page cls msg)"
    "available (lit ''showDanger'') (alert_page cls msg)"
    "available (lit ''showInfo'') (alert_page cls msg)" for cls msg
    by (simp_all add: available_def alert_page_facts)
  have t: "trim (lit ''Saved'') = lit ''Saved''" "trim (lit ''Low'') = lit ''Low''"
    "trim (lit ''Failed'') = lit ''Failed''" "trim (lit ''Note'') = lit ''Note''"
    by (simp_all add: trim_def lit_def isWhiteSpace_def)
  show ?thesis
    using migration_classifies_by_priority[OF f,
        of "lit ''alert alert-danger alert-success d-none''" "lit ''Saved''"]
      migration_classifies_by_priority[OF f,
        of "lit ''alert alert-warning alert-danger d-none''" "lit ''Low''"]
      migration_classifies_by_priority[OF f, of "lit ''alert alert-danger d-none''" "lit ''Failed''"]
      migration_classifies_by_priority[OF f, of "lit ''alert d-none''" "lit ''Note''"]
    by (simp add: a contains_def c alert_page_facts t) (simp add: lit_def)
qed

text \<open>
  C5 (as amended). The entry points return no value: a call yields the next window and
  nothing else. They do not fail silently without the toast widget: in a page with a
  body and an intact namespace, a call returns normally exactly when \<^verbatim>\<open>bootstrap.Toast\<close>
  exists; it throws a ReferenceError when \<^verbatim>\<open>bootstrap\<close> is not declared and a TypeError
  when \<^verbatim>\<open>bootstrap\<close> has no \<^verbatim>\<open>Toast\<close>.
\<close>

theorem show_faults_without_widget:
  assumes "(sev, glyph, f) \<in> set entry_points"
    and "body w \<noteq> None" and "available (lit ''_showToast'') w"
  shows "(returned (f m w) \<longleftrightarrow> bootstrap w = HasToast) \<and>
         (bootstrap w = Undeclared \<longrightarrow> (\<exists>w'. f m w = Inl (ReferenceError, w'))) \<and>
         (bootstrap w = NoToast \<longrightarrow> (\<exists>w'. f m w = Inl (TypeError, w')))"
proof -
  from assms have "f m w = showToast sev (glyph @ m) w"
    by (simp add: entry_point_unfold this_showToast_available)
  moreover obtain t w4 where "showToast sev (glyph @ m) w = activate t w4"
    and "bootstrap w4 = bootstrap w"
    using showToast_activate[OF assms(2)] by blast
  ultimately show ?thesis
    by (cases "bootstrap w") (simp_all add: activate_def)
qed

theorem show_faults_without_widget_witness:
  "returned (showSuccess (lit ''Budget saved'') (script_load (empty_page\<lparr>bootstrap := HasToast\<rparr>))) \<and>
   (\<exists>w'. showDanger [] (script_load empty_page) = Inl (ReferenceError, w')) \<and>
   (\<exists>w'. showInfo [] (script_load (empty_page\<lparr>bootstrap := NoToast\<rparr>)) = Inl (TypeError, w'))"
proof -
  have a: "available (lit ''_showToast'') (script_load (empty_page\<lparr>bootstrap := b\<rparr>))" for b
    by (simp add: available_def script_load_def)
  have b: "body (script_load (empty_page\<lparr>bootstrap := b\<rparr>)) \<noteq> None" for b
    by (simp add: script_load_def empty_page_def)
  have e: "script_load (empty_page\<lparr>bootstrap := Undeclared\<rparr>) = script_load empty_page"
    by (simp add: empty_page_def)
  have 1: "(lit ''success'', glyph_success, showSuccess) \<in> set entry_points"
    and 2: "(lit ''danger'', glyph_danger, showDanger) \<in> set entry_points"
    and 3: "(lit ''info'', glyph_info, showInfo) \<in> set entry_points"
    by (simp_all add: entry_points_def)
  show ?thesis
    using show_faults_without_widget[OF 1 b[of HasToast] a[of HasToast], of "lit ''Budget saved''"]
      show_faults_without_widget[OF 2 b[of Undeclared] a[of Undeclared], of "[]"]
      show_faults_without_widget[OF 3 b[of NoToast] a[of NoToast], of "[]"]
    by (simp add: script_load_def empty_page_def e)
qed

text \<open>
  C5 as stated fails: with \<^verbatim>\<open>bootstrap\<close> not loaded, \<^verbatim>\<open>showSuccess("Budget saved")\<close> on
  an empty page does not return.
\<close>

theorem show_fails_silently_counterexample:
  "\<not> returned (showSuccess (lit ''Budget saved'') (script_load empty_page))"
  by (simp add: showSuccess_def this_showToast_def script_load_def empty_page_def showToast_def
      toast_container_def querySelector_def querySelectorAll_def document_def createElement_def
      set_innerHTML_def appendChild_def activate_def)

text \<open>
  C6. When the \<^verbatim>\<open>hidden.bs.toast\<close> event is delivered for a toast that has the listener,
  the toast has no parent afterwards: it is neither in the document nor below a detached
  container. Delivering the event again changes nothing in the window; the listener has
  no failing path.
\<close>

theorem hidden_event_removes_toast:
  assumes "well_formed w" and "t \<in> set (hidden_listeners w)"
  shows "\<not> attached t (hidden_bs_toast t w) \<and>
         hidden_bs_toast t (hidden_bs_toast t w) = hidden_bs_toast t w"
  using assms by (simp add: hidden_bs_toast_def remove_not_attached remove_idem)

theorem hidden_event_removes_toast_witness:
  "attached 1 (after (showSuccess (lit ''Budget saved'') loaded_page)) \<and>
   \<not> attached 1 (hidden_bs_toast 1 (after (showSuccess (lit ''Budget saved'') loaded_page))) \<and>
   hidden_bs_toast 1 (hidden_bs_toast 1 (after (showSuccess (lit ''Budget saved'') loaded_page)))
     = hidden_bs_toast 1 (after (showSuccess (lit ''Budget saved'') loaded_page))"
proof -
  let ?w = "after (showSuccess (lit ''Budget saved'') loaded_page)"
  have 1: "well_formed ?w"
    using well_formed_showToast[OF loaded_page_facts(1), of "lit ''success''"
        "glyph_success @ lit ''Budget saved''"]
    by (simp add: showSuccess_def this_showToast_available loaded_page_facts)
  have 2: "1 \<in> set (hidden_listeners ?w)"
    by (simp add: first_toast)
  have 3: "attached 1 ?w"
    by (simp add: first_toast attached_def)
  show ?thesis
    using hidden_event_removes_toast[OF 1 2] 3 by simp
qed

text \<open>
  C7. The message the callback passes to the entry point of the alert's category is the
  alert's text content trimmed: the text is white space, then the message, then white
  space, and a message that is not empty neither starts nor ends with white space. The
  spec's example is the page with \<^verbatim>\<open><div class="alert alert-warning d-none"> Low balance </div>\<close>:
  the warning entry point receives \<^verbatim>\<open>Low balance\<close>, and after the load handler the body
  holds the container with that toast and no longer the alert.
\<close>

theorem migration_trims_message:
  assumes "find_node a (document w @ detached w) = Some (e, cs)"
    and "available (method_name (category_of e)) w"
    and "(category_of e, glyph, f) \<in> set entry_points"
  shows "\<exists>pre post.
           text_of cs = pre @ trim (text_of cs) @ post \<and>
           list_all isWhiteSpace pre \<and> list_all isWhiteSpace post \<and>
           (trim (text_of cs) \<noteq> [] \<longrightarrow>
              \<not> isWhiteSpace (hd (trim (text_of cs))) \<and>
              \<not> isWhiteSpace (last (trim (text_of cs)))) \<and>
           migrate a w = then_remove a (f (trim (text_of cs)) w)"
  using trim_decomp[of "text_of cs"] trim_ends[of "text_of cs"]
    migrate_entry[OF assms(1,3)] assms(2)
  by auto

theorem migration_trims_message_witness:
  "migrate 0 (alert_page (lit ''alert alert-warning d-none'') (lit '' Low balance '')) =
     then_remove 0 (showWarning (lit ''Low balance'')
       (alert_page (lit ''alert alert-warning d-none'') (lit '' Low balance ''))) \<and>
   body (after (DOMContentLoaded
       (alert_page (lit ''alert alert-warning d-none'') (lit '' Low balance '')))) =
     Some [Element (container_element 1)
             [Element (toast_element 2 (lit ''warning''))
                (number 3 (template_tree
                   [Text ([0x26A0, 0xFE0F, 0x20] @ lit ''Low balance'')]))]]"
proof -
  let ?w = "alert_page (lit ''alert alert-warning d-none'') (lit '' Low balance '')"
  let ?e = "\<lparr>nid = 0, localName = lit ''div'',
      className = lit ''alert alert-warning d-none'', attributes = [], style_zIndex = []\<rparr>"
  let ?toast = "Element (toast_element 2 (lit ''warning''))
      (number 3 (template_tree [Text (glyph_warning @ lit ''Low balance'')]))"
  have f: "find_node 0 (document ?w @ detached ?w) = Some (?e, [Text (lit '' Low balance '')])"
    by (simp add: alert_page_facts)
  have a: "available (method_name (category_of ?e)) ?w"
    by (simp add: low_balance_page method_names available_def alert_page_facts)
  have ep: "(category_of ?e, glyph_warning, showWarning) \<in> set entry_points"
    by (simp add: low_balance_page entry_points_def)
  have m: "migrate 0 ?w = then_remove 0 (showWarning (lit ''Low balance'') ?w)"
    using migration_trims_message[OF f a ep]
    by (auto simp add: alert_page_facts low_balance_page)
  have q: "querySelector [lit ''toast-container''] ?w = None"
    by (simp add: querySelector_def querySelectorAll_def alert_page_facts matches_def
        contains_def classList_def lit_def isAsciiWhitespace_def)
  have g: "glyph_warning \<noteq> []" by (simp add: glyph_warning_def)
  note c = toast_content_plain[OF conforming_subset_parser plain_glyphs(2) g plain_examples(4)]
  note k = weight_plain[OF conforming_subset_parser plain_glyphs(2) g plain_examples(4)]
  have s: "showWarning (lit ''Low balance'') ?w =
      Inr (?w\<lparr>hidden_listeners := [2], shown := [2], created := [1, 2], next_id := 6,
        body := Some [Element ?e [Text (lit '' Low balance '')],
                      Element (container_element 1) [?toast]]\<rparr>)"
    using showToast_fresh[OF alert_page_facts(1) q alert_page_facts(3)]
    by (simp add: showWarning_def this_showToast_def alert_page_facts activate_def k
        numeral_2_eq_2)
      (simp add: c numeral_3_eq_3 numeral_2_eq_2)
  have "DOMContentLoaded ?w = forEach [0] ?w"
    by (simp add: DOMContentLoaded_def querySelectorAll_def alert_page_facts low_balance_page)
  then have "body (after (DOMContentLoaded ?w)) = Some [Element (container_element 1) [?toast]]"
    by (simp add: m s then_remove_def remove_def document_def number_template)
  with m show ?thesis by (simp add: glyph_warning_def)
qed

text \<open>
  C8. When the namespace object is missing, or it lacks the method for the alert's
  category, the callback does not call the notifier: it returns without a fault, the
  alert has no parent afterwards, and no element was created and nothing was shown.
\<close>

theorem migration_skips_missing_notifier:
  assumes "well_formed w" and "find_node a (document w @ detached w) = Some (e, cs)"
    and "BudgeteerNotifications w = None \<or>
         (\<exists>props. BudgeteerNotifications w = Some props \<and>
                  method_name (category_of e) \<notin> set props)"
  shows "migrate a w = Inr (remove a w) \<and> \<not> attached a (remove a w) \<and>
         mset (all_elems (remove a w)) = mset (all_elems w) \<and>
         next_id (remove a w) = next_id w \<and> shown (remove a w) = shown w"
proof -
  from assms(3) have "\<not> available (method_name (category_of e)) w"
    by (auto simp: available_def)
  with assms(2) have "migrate a w = Inr (remove a w)"
    by (simp add: migrate_def Let_def)
  with assms(1) show ?thesis
    by (simp add: remove_not_attached remove_all_mset)
qed

theorem migration_skips_missing_notifier_witness:
  "migrate 0 flash_page = Inr (remove 0 flash_page) \<and> \<not> attached 0 (remove 0 flash_page) \<and>
   body (remove 0 flash_page) = Some [] \<and>
   migrate 0 (flash_page\<lparr>BudgeteerNotifications := Some [lit ''showSuccess'', lit ''_showToast'']\<rparr>)
     = Inr (remove 0
         (flash_page\<lparr>BudgeteerNotifications := Some [lit ''showSuccess'', lit ''_showToast'']\<rparr>))"
proof -
  let ?w = "flash_page\<lparr>BudgeteerNotifications := Some [lit ''showSuccess'', lit ''_showToast'']\<rparr>"
  have c: "category_of flash_alert = lit ''warning''"
    using low_balance_page(1) by (simp add: flash_alert_def)
  have 1: "find_node 0 (document flash_page @ detached flash_page) =
             Some (flash_alert, [Text (lit '' Low balance '')])"
    by (simp add: flash_page_facts)
  have 2: "BudgeteerNotifications flash_page = None \<or>
         (\<exists>props. BudgeteerNotifications flash_page = Some props \<and>
                  method_name (category_of flash_alert) \<notin> set props)"
    by (simp add: flash_page_facts)
  have 3: "well_formed ?w"
    using flash_page_facts(1) by (simp add: well_formed_def all_elems_def document_def)
  have 4: "find_node 0 (document ?w @ detached ?w) =
             Some (flash_alert, [Text (lit '' Low balance '')])"
    using 1 by (simp add: document_def)
  have 5: "BudgeteerNotifications ?w = None \<or>
         (\<exists>props. BudgeteerNotifications ?w = Some props \<and>
                  method_name (category_of flash_alert) \<notin> set props)"
    by (simp add: c method_names) (simp add: lit_def)
  have "body (remove 0 flash_page) = Some []"
    by (simp add: remove_def flash_page_facts) (simp add: flash_page_def flash_alert_def)
  then show ?thesis
    using migration_skips_missing_notifier[OF flash_page_facts(1) 1 2]
      migration_skips_missing_notifier[OF 3 4 5]
    by simp
qed

text \<open>
  C9. No entry point validates its message: called with the empty string, each one still
  appends exactly one toast to the container, and it returns under the same condition as
  for any other message. With a conforming parser the content of that toast is the
  template's nodes with the glyph as the only text of the body, so the body text of the
  toast in the page is the glyph alone. The spec's example is the danger entry point.
\<close>

theorem empty_message_accepted:
  assumes "(sev, glyph, f) \<in> set entry_points"
    and "well_formed w" and "body w \<noteq> None" and "available (lit ''_showToast'') w"
  shows "children_in (container_id w) (after (f [] w)) =
           children_in (container_id w) w @ [new_toast (html_parse w) (toast_id w) sev glyph] \<and>
         (conforming (html_parse w) \<longrightarrow>
            new_toast (html_parse w) (toast_id w) sev glyph =
              Element (toast_element (toast_id w) sev)
                (number (Suc (toast_id w)) (template_tree [Text glyph])) \<and>
            text_of (body_nodes (last (children_in (container_id w) (after (f [] w))))) =
              glyph) \<and>
         (returned (f [] w) \<longleftrightarrow> bootstrap w = HasToast)"
proof -
  note f = entry_point_after[OF assms(1,4)]
  note g = entry_point_glyph[OF assms(1)]
  have page: "children_in (container_id w) (after (f [] w)) =
           children_in (container_id w) w @ [new_toast (html_parse w) (toast_id w) sev glyph]"
    using showToast_effect(2)[OF assms(2,3), of sev glyph] by (simp add: f(1))
  have bt: "conforming (html_parse w) \<longrightarrow>
            new_toast (html_parse w) (toast_id w) sev glyph =
              Element (toast_element (toast_id w) sev)
                (number (Suc (toast_id w)) (template_tree [Text glyph])) \<and>
            text_of (body_nodes (last (children_in (container_id w) (after (f [] w))))) =
              glyph"
  proof
    assume a: "conforming (html_parse w)"
    have "list_all plain_char ([] :: jsstring)" by simp
    note c = toast_content_plain[OF a conjunct1[OF g] conjunct2[OF g] this, of "toast_id w" sev]
    show "new_toast (html_parse w) (toast_id w) sev glyph =
              Element (toast_element (toast_id w) sev)
                (number (Suc (toast_id w)) (template_tree [Text glyph])) \<and>
            text_of (body_nodes (last (children_in (container_id w) (after (f [] w))))) =
              glyph"
      using c by (simp add: page) (simp add: body_nodes_template)
  qed
  have rt: "returned (f [] w) \<longleftrightarrow> bootstrap w = HasToast"
    by (simp add: f(1) returned_showToast[OF assms(3)])
  show ?thesis
    by (rule conjI[OF page conjI[OF bt rt]])
qed

theorem empty_message_accepted_witness:
  "children_in 0 (after (showDanger [] loaded_page)) =
     [Element (toast_element 1 (lit ''danger''))
        (number 2 (template_tree [Text [0x274C, 0x20]]))] \<and>
   text_of (body_nodes (last (children_in 0 (after (showDanger [] loaded_page))))) =
     [0x274C, 0x20] \<and>
   returned (showDanger [] loaded_page)"
proof -
  have 1: "(lit ''danger'', glyph_danger, showDanger) \<in> set entry_points"
    by (simp add: entry_points_def)
  have 2: "body loaded_page \<noteq> None" by (simp add: loaded_page_facts)
  show ?thesis
    using empty_message_accepted[OF 1 loaded_page_facts(1) 2 loaded_page_facts(4)]
    by (simp add: loaded_page_facts(5,6,7,9,10) glyph_danger_def numeral_2_eq_2
        body_nodes_template conforming_subset_parser)
qed



end
